theory Spec2Isabelle
  imports
    Complex_Main
    "HOL-Library.AList"
    "HOL-Library.Char_ord"
    "HOL-Library.List_Lexorder"
    "HOL-Library.Product_Lexorder"
begin

section \<open>FlowMap-r: depth labels and area recovery for K-LUT mapping\<close>

text \<open>
  A shallow embedding of \<^verbatim>\<open>flowmap-r.py\<close>.

  \<^item> A Python \<^verbatim>\<open>dict\<close> keeps its keys in insertion order, so every dictionary of the
    source (the graph, \<^verbatim>\<open>node_cuts\<close>, \<^verbatim>\<open>labels\<close>, \<^verbatim>\<open>cut_depth\<close>, \<^verbatim>\<open>area_flow\<close>,
    \<^verbatim>\<open>best_cut_area\<close>) is an association list; \<^verbatim>\<open>d[k] = v\<close> is \<open>AList.update\<close> (replace in
    place, or append a new key) and \<^verbatim>\<open>d[k]\<close> is \<open>map_of\<close>, a missing key being the error
    \<open>KeyError\<close>.
  \<^item> A Python \<^verbatim>\<open>set\<close>/\<^verbatim>\<open>frozenset\<close> of nodes is an \<open>'a set\<close>; node names are any linearly
    ordered type (strings in the examples, ordered as Python orders them).
  \<^item> Python integers are \<open>int\<close>. The area-flow costs are Python floats, that is IEEE 754
    doubles: \<open>double\<close> below, with every sum and quotient rounded to nearest, ties to even.
  \<^item> The order in which Python iterates over a set is not fixed by the language (for
    strings it changes with the hash seed of the process). It is the parameter \<open>iter\<close>:
    \<open>iter v C\<close> lists the cut \<open>C\<close> of the node \<open>v\<close> in the order of the run.
  \<^item> Every \<^verbatim>\<open>raise\<close> is an \<open>Inl\<close> value of the result.
  \<^item> A dictionary holds each key once; the theorems about an arbitrary graph \<open>g\<close> say so
    with \<open>distinct (map fst g)\<close>.
  \<^item> Printing (\<^verbatim>\<open>verbose\<close>) is left out, and so is Python's recursion limit.
\<close>

datatype 'a error =
    GraphNotDag          \<comment> \<open>\<^verbatim>\<open>ValueError("Graph is not a DAG")\<close>\<close>
  | KTooSmall            \<comment> \<open>\<^verbatim>\<open>ValueError("K must be >= 1")\<close>\<close>
  | NoFeasibleCuts 'a    \<comment> \<open>\<^verbatim>\<open>RuntimeError("No K-feasible cuts for v with K=...")\<close>\<close>
  | KeyError             \<comment> \<open>a dictionary read at a missing key\<close>
  | EmptySequence        \<comment> \<open>\<^verbatim>\<open>min()\<close> of an empty sequence\<close>

type_synonym 'a graph = "('a \<times> 'a list) list"
type_synonym 'a cut = "'a set"

subsection \<open>Graph utilities\<close>

text \<open>\<^verbatim>\<open>fanouts[u]\<close>: one entry \<open>v\<close> for each occurrence of \<open>u\<close> in \<open>graph[v]\<close>, in graph order.
  The source's \<^verbatim>\<open>defaultdict\<close> gives \<open>[]\<close> for every other node.\<close>

definition fanouts_of :: "'a graph \<Rightarrow> 'a \<Rightarrow> 'a list" where
  "fanouts_of g u = concat (map (\<lambda>(v, fins). map (\<lambda>_. v) (filter (\<lambda>x. x = u) fins)) g)"

text \<open>\<^verbatim>\<open>indeg = {n: len(graph[n]) for n in graph}\<close>. The dictionary is only ever read at
  keys of the graph (the queue and the fanout lists hold nothing else), so it is a total
  function here.\<close>

definition indeg_init :: "'a graph \<Rightarrow> 'a \<Rightarrow> int" where
  "indeg_init g n = (case map_of g n of Some fins \<Rightarrow> int (length fins) | None \<Rightarrow> 0)"

text \<open>The inner loop \<^verbatim>\<open>for w in fanouts[u]: indeg[w] -= 1; if indeg[w] == 0: q.append(w)\<close>.\<close>

fun relax :: "'a list \<Rightarrow> ('a \<Rightarrow> int) \<Rightarrow> 'a list \<Rightarrow> ('a \<Rightarrow> int) \<times> 'a list" where
  "relax [] indeg q = (indeg, q)"
| "relax (w # ws) indeg q =
     (let indeg' = indeg(w := indeg w - 1)
      in relax ws indeg' (if indeg' w = 0 then q @ [w] else q))"

text \<open>The loop \<^verbatim>\<open>while q: u = q.popleft(); order.append(u); ...\<close>.\<close>

function kahn :: "'a graph \<Rightarrow> ('a \<Rightarrow> int) \<Rightarrow> 'a list \<Rightarrow> 'a list \<Rightarrow> 'a list" where
  "kahn g indeg [] order = order"
| "kahn g indeg (u # q) order =
     (case relax (fanouts_of g u) indeg q of
        (indeg', q') \<Rightarrow> kahn g indeg' q' (order @ [u]))"
  by pat_completeness auto

definition pending :: "'a graph \<Rightarrow> ('a \<Rightarrow> int) \<Rightarrow> nat" where
  "pending g indeg = sum_list (map (\<lambda>k. nat (indeg k)) (map fst g))"

lemma pending_decr:
  "pending g (indeg(w := indeg w - 1)) \<le> pending g indeg"
  unfolding pending_def by (rule sum_list_mono) auto

lemma sum_list_decr_strict:
  fixes f h :: "'b \<Rightarrow> nat"
  assumes "\<And>k. h k \<le> f k" and "w \<in> set ks" and "h w < f w"
  shows "sum_list (map h ks) < sum_list (map f ks)"
  using assms(2)
proof (induction ks)
  case Nil
  then show ?case by simp
next
  case (Cons k ks)
  have le: "sum_list (map h ks) \<le> sum_list (map f ks)"
    by (rule sum_list_mono) (simp add: assms(1))
  show ?case
  proof (cases "k = w")
    case True
    with le assms(3) show ?thesis by simp
  next
    case False
    with Cons have "sum_list (map h ks) < sum_list (map f ks)" by simp
    with assms(1)[of k] show ?thesis by (simp add: add_le_less_mono)
  qed
qed

lemma pending_decr_strict:
  assumes "w \<in> fst ` set g" and "1 \<le> indeg w"
  shows "pending g (indeg(w := indeg w - 1)) < pending g indeg"
  unfolding pending_def
  by (rule sum_list_decr_strict[where w = w]) (use assms in auto)

lemma relax_measure:
  assumes "set ws \<subseteq> fst ` set g" and "relax ws indeg q = (indeg', q')"
  shows "pending g indeg' + length q' \<le> pending g indeg + length q"
  using assms
proof (induction ws arbitrary: indeg q)
  case Nil
  then show ?case by simp
next
  case (Cons w ws)
  let ?i = "indeg(w := indeg w - 1)"
  let ?q = "if ?i w = 0 then q @ [w] else q"
  from Cons.prems have r: "relax ws ?i ?q = (indeg', q')" and sub: "set ws \<subseteq> fst ` set g"
    and w: "w \<in> fst ` set g"
    by (simp_all add: Let_def)
  from Cons.IH[OF sub r] have ih: "pending g indeg' + length q' \<le> pending g ?i + length ?q" .
  show ?case
  proof (cases "?i w = 0")
    case True
    then have "1 \<le> indeg w" by simp
    with w have "pending g ?i < pending g indeg" by (rule pending_decr_strict)
    with ih True show ?thesis by simp
  next
    case False
    with ih pending_decr[of g indeg w] show ?thesis by simp
  qed
qed

lemma fanouts_of_keys: "set (fanouts_of g u) \<subseteq> fst ` set g"
  unfolding fanouts_of_def by force

termination kahn
  apply (relation "measure (\<lambda>(g, indeg, q, order). pending g indeg + length q)")
   apply simp
  apply (drule sym)
  apply (drule relax_measure[OF fanouts_of_keys])
  apply simp
  done

text \<open>\<^verbatim>\<open>topo_sort\<close>: Kahn's algorithm; the queue starts with the keys of indegree 0 in
  graph order. It returns the order and the fanout table.\<close>

definition topo_sort :: "'a graph \<Rightarrow> 'a error + ('a list \<times> ('a \<Rightarrow> 'a list))" where
  "topo_sort g =
     (let indeg = indeg_init g;
          q = filter (\<lambda>n. indeg n = 0) (map fst g);
          order = kahn g indeg q []
      in if length order \<noteq> length g then Inl GraphNotDag
         else Inr (order, fanouts_of g))"

definition primary_inputs :: "'a graph \<Rightarrow> 'a set" where
  "primary_inputs g = set (map fst (filter (\<lambda>(n, fins). length fins = 0) g))"

definition detect_outputs :: "'a graph \<Rightarrow> 'a list" where
  "detect_outputs g =
     (let all_fins = set (concat (map snd g))
      in filter (\<lambda>n. n \<notin> all_fins) (map fst g))"

subsection \<open>Cut handling\<close>

text \<open>\<^verbatim>\<open>minimalize_cuts\<close>: cut \<open>i\<close> is dominated when another position \<open>j\<close> holds a subset
  of it that is either a proper subset or an earlier copy; then the survivors are
  deduplicated, keeping first occurrences.\<close>

definition dominated :: "'a cut list \<Rightarrow> nat \<Rightarrow> bool" where
  "dominated fs i =
     list_ex (\<lambda>j. j \<noteq> i \<and> fs ! j \<subseteq> fs ! i \<and> (fs ! j \<noteq> fs ! i \<or> j < i)) [0..<length fs]"

fun dedup :: "'a cut list \<Rightarrow> 'a cut set \<Rightarrow> 'a cut list" where
  "dedup [] seen = []"
| "dedup (c # cs) seen = (if c \<in> seen then dedup cs seen else c # dedup cs (insert c seen))"

definition minimalize_cuts :: "'a cut list \<Rightarrow> 'a cut list" where
  "minimalize_cuts cuts =
     (let keep = map (\<lambda>i. cuts ! i) (filter (\<lambda>i. \<not> dominated cuts i) [0..<length cuts])
      in dedup keep {})"

text \<open>\<^verbatim>\<open>set().union(*combo)\<close>.\<close>

definition union_all :: "'a cut list \<Rightarrow> 'a cut" where
  "union_all combo = fold (\<lambda>c acc. acc \<union> c) combo {}"

text \<open>The slice \<^verbatim>\<open>cand[:n]\<close>; a negative \<open>n\<close> counts from the end.\<close>

definition py_take :: "int \<Rightarrow> 'b list \<Rightarrow> 'b list" where
  "py_take n xs = (if 0 \<le> n then take (nat n) xs else take (nat (int (length xs) + n)) xs)"

text \<open>The candidates of a gate \<open>v\<close> with fanins \<open>fins\<close>, from the cut lists \<open>pools\<close> of its
  fanins: the unions over the Cartesian product that have at most \<open>K\<close> elements, then
  the fanin set itself if it has at most \<open>K\<close> elements; pruned, and cut down to
  \<open>cut_limit\<close> entries after sorting by (size, sorted elements).\<close>

definition node_candidates :: "int \<Rightarrow> int option \<Rightarrow> 'a::linorder list \<Rightarrow> 'a cut list list \<Rightarrow> 'a cut list" where
  "node_candidates K cut_limit fins pools =
     (let cand = filter (\<lambda>U. int (card U) \<le> K) (map union_all (product_lists pools));
          triv = set fins;
          cand = (if int (card triv) \<le> K then cand @ [triv] else cand);
          cand = minimalize_cuts cand
      in case cut_limit of
           None \<Rightarrow> cand
         | Some cl \<Rightarrow>
             if int (length cand) > cl
             then py_take cl (sort_key (\<lambda>s. (card s, sorted_list_of_set s)) cand)
             else cand)"

fun enum_loop ::
  "'a::linorder graph \<Rightarrow> int \<Rightarrow> int option \<Rightarrow> 'a set \<Rightarrow> 'a list \<Rightarrow> ('a \<times> 'a cut list) list
     \<Rightarrow> 'a error + ('a \<times> 'a cut list) list" where
  "enum_loop g K cut_limit PIs [] node_cuts = Inr node_cuts"
| "enum_loop g K cut_limit PIs (v # vs) node_cuts =
     (if v \<in> PIs then enum_loop g K cut_limit PIs vs (AList.update v [{v}] node_cuts)
      else case map_of g v of
             None \<Rightarrow> Inl KeyError
           | Some fins \<Rightarrow>
               (case those (map (map_of node_cuts) fins) of
                  None \<Rightarrow> Inl KeyError
                | Some pools \<Rightarrow>
                    enum_loop g K cut_limit PIs vs
                      (AList.update v (node_candidates K cut_limit fins pools) node_cuts)))"

definition enumerate_minimal_kcuts ::
  "'a::linorder graph \<Rightarrow> int \<Rightarrow> int option \<Rightarrow> 'a error + ('a \<times> 'a cut list) list" where
  "enumerate_minimal_kcuts g K cut_limit =
     (if K < 1 then Inl KTooSmall
      else case topo_sort g of
             Inl e \<Rightarrow> Inl e
           | Inr (topo, _) \<Rightarrow> enum_loop g K cut_limit (primary_inputs g) topo [])"

subsection \<open>FlowMap depth labels\<close>

text \<open>\<^verbatim>\<open>1 + max(labels[u] for u in C) if C else 1\<close>; \<open>None\<close> when some \<open>labels[u]\<close> is
  missing (a \<^verbatim>\<open>KeyError\<close>).\<close>

definition cut_value :: "('a \<times> int) list \<Rightarrow> 'a cut \<Rightarrow> int option" where
  "cut_value labels C =
     (if C = {} then Some 1
      else if \<forall>u\<in>C. map_of labels u \<noteq> None
           then Some (1 + Max ((\<lambda>u. the (map_of labels u)) ` C))
           else None)"

text \<open>The loop over \<^verbatim>\<open>node_cuts[v]\<close> in \<^verbatim>\<open>flowmap_labels\<close>: records
  \<^verbatim>\<open>cut_depth[v][frozenset(C)] = d\<close> and keeps the least \<open>d\<close> in \<open>best_lbl\<close>.\<close>

fun label_cuts ::
  "('a \<times> int) list \<Rightarrow> 'a \<Rightarrow> 'a cut list \<Rightarrow> ('a \<times> ('a cut \<times> int) list) list \<Rightarrow> int option
     \<Rightarrow> 'a error + (('a \<times> ('a cut \<times> int) list) list \<times> int option)" where
  "label_cuts labels v [] cut_depth best_lbl = Inr (cut_depth, best_lbl)"
| "label_cuts labels v (C # Cs) cut_depth best_lbl =
     (case cut_value labels C of
        None \<Rightarrow> Inl KeyError
      | Some d \<Rightarrow>
          (case map_of cut_depth v of
             None \<Rightarrow> Inl KeyError
           | Some cdv \<Rightarrow>
               label_cuts labels v Cs (AList.update v (AList.update C d cdv) cut_depth)
                 (case best_lbl of
                    None \<Rightarrow> Some d
                  | Some b \<Rightarrow> if d < b then Some d else Some b)))"

fun label_loop ::
  "'a set \<Rightarrow> ('a \<times> 'a cut list) list \<Rightarrow> 'a list
     \<Rightarrow> ('a \<times> int) list \<times> ('a \<times> ('a cut \<times> int) list) list
     \<Rightarrow> 'a error + (('a \<times> int) list \<times> ('a \<times> ('a cut \<times> int) list) list)" where
  "label_loop PIs node_cuts [] st = Inr st"
| "label_loop PIs node_cuts (v # vs) (labels, cut_depth) =
     (if v \<in> PIs
      then case map_of cut_depth v of
             None \<Rightarrow> Inl KeyError
           | Some cdv \<Rightarrow>
               label_loop PIs node_cuts vs
                 (AList.update v 0 labels, AList.update v (AList.update {v} 0 cdv) cut_depth)
      else case map_of node_cuts v of
             None \<Rightarrow> Inl KeyError
           | Some cuts \<Rightarrow>
               (case label_cuts labels v cuts cut_depth None of
                  Inl e \<Rightarrow> Inl e
                | Inr (cut_depth', None) \<Rightarrow> Inl (NoFeasibleCuts v)
                | Inr (cut_depth', Some best_lbl) \<Rightarrow>
                    label_loop PIs node_cuts vs (AList.update v best_lbl labels, cut_depth')))"

definition flowmap_labels ::
  "'a::linorder graph \<Rightarrow> int \<Rightarrow> ('a \<times> 'a cut list) list option
     \<Rightarrow> 'a error + (('a \<times> int) list \<times> ('a \<times> 'a cut list) list
                     \<times> ('a \<times> ('a cut \<times> int) list) list)" where
  "flowmap_labels g K node_cuts_opt =
     (case (case node_cuts_opt of
              None \<Rightarrow> enumerate_minimal_kcuts g K None
            | Some nc \<Rightarrow> Inr nc) of
        Inl e \<Rightarrow> Inl e
      | Inr node_cuts \<Rightarrow>
          (case topo_sort g of
             Inl e \<Rightarrow> Inl e
           | Inr (topo, _) \<Rightarrow>
               (case label_loop (primary_inputs g) node_cuts topo
                       ([], map (\<lambda>(v, _). (v, [])) g) of
                  Inl e \<Rightarrow> Inl e
                | Inr (labels, cut_depth) \<Rightarrow> Inr (labels, node_cuts, cut_depth))))"

subsection \<open>Area-flow recovery\<close>

definition compute_refcounts :: "'a graph \<Rightarrow> 'a error + ('a \<times> nat) list" where
  "compute_refcounts g =
     (case topo_sort g of
        Inl e \<Rightarrow> Inl e
      | Inr (_, fanouts) \<Rightarrow> Inr (map (\<lambda>(n, _). (n, max 1 (length (fanouts n)))) g))"

subsubsection \<open>Python floats\<close>

text \<open>
  A double that this program can hold: a finite value that is not negative, or
  \<open>+inf\<close>. The program starts from \<^verbatim>\<open>0.0\<close> and \<^verbatim>\<open>1.0\<close> and only adds doubles and divides them
  by positive integers, so no negative number and no NaN arises. A finite double is
  the rational it denotes; comparison is comparison of these values.
\<close>

datatype double = Finite rat | PosInf

instantiation double :: linorder
begin

fun less_eq_double :: "double \<Rightarrow> double \<Rightarrow> bool" where
  "less_eq_double (Finite a) (Finite b) \<longleftrightarrow> a \<le> b"
| "less_eq_double (Finite a) PosInf \<longleftrightarrow> True"
| "less_eq_double PosInf (Finite b) \<longleftrightarrow> False"
| "less_eq_double PosInf PosInf \<longleftrightarrow> True"

definition less_double :: "double \<Rightarrow> double \<Rightarrow> bool" where
  "less_double x y \<longleftrightarrow> x \<le> y \<and> \<not> y \<le> x"

instance
proof
  fix x y z :: double
  show "x < y \<longleftrightarrow> x \<le> y \<and> \<not> y \<le> x" by (simp add: less_double_def)
  show "x \<le> x" by (cases x) simp_all
  show "x \<le> y \<Longrightarrow> y \<le> z \<Longrightarrow> x \<le> z" by (cases x; cases y; cases z) simp_all
  show "x \<le> y \<Longrightarrow> y \<le> x \<Longrightarrow> x = y" by (cases x; cases y) simp_all
  show "x \<le> y \<or> y \<le> x" by (cases x; cases y) auto
qed

end

text \<open>The number of binary digits of a positive integer.\<close>

function nbits :: "int \<Rightarrow> nat" where
  "nbits n = (if n \<le> 0 then 0 else Suc (nbits (n div 2)))"
  by pat_completeness auto

termination nbits
  by (relation "measure nat") auto

declare nbits.simps [simp del]

definition pow2 :: "int \<Rightarrow> rat" where
  "pow2 e = (if 0 \<le> e then 2 ^ nat e else 1 / 2 ^ nat (- e))"

text \<open>Rounding to the nearest integer, a tie going to the even one.\<close>

definition round_half_even :: "rat \<Rightarrow> int" where
  "round_half_even m =
     (let f = \<lfloor>m\<rfloor>; r = m - of_int f
      in if r < 1 / 2 then f else if 1 / 2 < r then f + 1 else if even f then f else f + 1)"

text \<open>The binary exponent \<open>e\<close> of a positive rational: \<open>2 ^ e \<le> x < 2 ^ (e + 1)\<close>. The
  difference \<open>d\<close> of the bit lengths of numerator and denominator is \<open>e\<close> or \<open>e + 1\<close>.\<close>

definition exponent_of :: "rat \<Rightarrow> int" where
  "exponent_of x =
     (case quotient_of x of
        (p, q) \<Rightarrow> (let d = int (nbits p) - int (nbits q) in if pow2 d \<le> x then d else d - 1))"

text \<open>
  Rounding to a double (binary64, round to nearest, ties to even): with exponent \<open>e\<close>
  (not below \<open>-1022\<close>, where the subnormal numbers start) the spacing of doubles is
  \<open>2 ^ (e - 52)\<close>; \<open>x\<close> is rounded to a multiple \<open>n\<close> of it, and the result overflows to
  \<open>+inf\<close> when it reaches \<open>2 ^ 1024\<close>.
\<close>

definition pack :: "int \<Rightarrow> int \<Rightarrow> double" where
  "pack e n =
     (if 1023 < e \<or> (e = 1023 \<and> n = 2 ^ 53) then PosInf
      else Finite (of_int n * pow2 (e - 52)))"

definition round_to :: "int \<Rightarrow> rat \<Rightarrow> double" where
  "round_to e x = pack e (round_half_even (x / pow2 (e - 52)))"

definition round_double :: "rat \<Rightarrow> double" where
  "round_double x =
     (if x \<le> 0 then Finite 0 else round_to (max (exponent_of x) (- 1022)) x)"

text \<open>Float addition \<^verbatim>\<open>x + y\<close>: the exact sum, rounded.\<close>

definition fadd :: "double \<Rightarrow> double \<Rightarrow> double" where
  "fadd x y = (case (x, y) of (Finite a, Finite b) \<Rightarrow> round_double (a + b) | _ \<Rightarrow> PosInf)"

text \<open>
  \<^verbatim>\<open>x / n\<close> for a float \<open>x\<close> and a positive \<^verbatim>\<open>int\<close> \<open>n\<close>: the integer is converted to a double
  (rounded, when it has more than 53 bits) and the exact quotient is rounded. Every
  \<open>n\<close> of this program is the length of a Python list, below \<open>2 ^ 63\<close>, so its conversion
  is finite; the value given here for a divisor that overflows is never used.
\<close>

definition fdiv :: "double \<Rightarrow> nat \<Rightarrow> double" where
  "fdiv x n =
     (case x of
        PosInf \<Rightarrow> PosInf
      | Finite a \<Rightarrow>
          (case round_double (of_nat n) of
             PosInf \<Rightarrow> Finite 0
           | Finite b \<Rightarrow> round_double (a / b)))"

subsubsection \<open>The area-flow pass\<close>

text \<open>
  The cost of a cut, accumulated as the source does: \<^verbatim>\<open>cost = 1.0\<close>, then
  \<^verbatim>\<open>for u in C: if u not in PIs: cost += area_flow[u] / refcnt[u]\<close>, over the members
  \<open>us\<close> of the cut in iteration order. \<open>None\<close> is the \<^verbatim>\<open>KeyError\<close> of a missing entry.
\<close>

fun cost_loop ::
  "'a set \<Rightarrow> ('a \<times> nat) list \<Rightarrow> ('a \<times> double) list \<Rightarrow> 'a list \<Rightarrow> double \<Rightarrow> double option" where
  "cost_loop PIs refcnt area_flow [] cost = Some cost"
| "cost_loop PIs refcnt area_flow (u # us) cost =
     (if u \<in> PIs then cost_loop PIs refcnt area_flow us cost
      else case map_of area_flow u of
             None \<Rightarrow> None
           | Some a \<Rightarrow>
               (case map_of refcnt u of
                  None \<Rightarrow> None
                | Some r \<Rightarrow> cost_loop PIs refcnt area_flow us (fadd cost (fdiv a r))))"

definition cut_cost ::
  "'a set \<Rightarrow> ('a \<times> nat) list \<Rightarrow> ('a \<times> double) list \<Rightarrow> 'a list \<Rightarrow> double option" where
  "cut_cost PIs refcnt area_flow us = cost_loop PIs refcnt area_flow us (Finite 1)"

text \<open>\<^verbatim>\<open>cut_depth[v][frozenset(C)]\<close>; \<open>None\<close> when either key is missing.\<close>

definition cut_depth_at :: "('a \<times> ('a cut \<times> int) list) list \<Rightarrow> 'a \<Rightarrow> 'a cut \<Rightarrow> int option" where
  "cut_depth_at cut_depth v C = Option.bind (map_of cut_depth v) (\<lambda>cdv. map_of cdv C)"

text \<open>The loop over \<^verbatim>\<open>node_cuts[v]\<close> in \<^verbatim>\<open>area_recovery\<close>: cuts deeper than \<^verbatim>\<open>labels[v]\<close>
  are skipped; a cut replaces the best one only when its cost is strictly smaller.\<close>

fun select_cut ::
  "('a \<Rightarrow> 'a cut \<Rightarrow> 'a list) \<Rightarrow> 'a set \<Rightarrow> ('a \<times> nat) list \<Rightarrow> ('a \<times> double) list
     \<Rightarrow> ('a \<times> int) list \<Rightarrow> ('a \<times> ('a cut \<times> int) list) list \<Rightarrow> 'a \<Rightarrow> 'a cut list
     \<Rightarrow> (double \<times> 'a cut) option \<Rightarrow> 'a error + (double \<times> 'a cut) option" where
  "select_cut iter PIs refcnt area_flow labels cut_depth v [] best = Inr best"
| "select_cut iter PIs refcnt area_flow labels cut_depth v (C # Cs) best =
     (case cut_depth_at cut_depth v C of
        None \<Rightarrow> Inl KeyError
      | Some d \<Rightarrow>
          (case map_of labels v of
             None \<Rightarrow> Inl KeyError
           | Some lv \<Rightarrow>
               if d > lv then select_cut iter PIs refcnt area_flow labels cut_depth v Cs best
               else case cut_cost PIs refcnt area_flow (iter v C) of
                      None \<Rightarrow> Inl KeyError
                    | Some cost \<Rightarrow>
                        select_cut iter PIs refcnt area_flow labels cut_depth v Cs
                          (case best of
                             None \<Rightarrow> Some (cost, C)
                           | Some (best_cost, best_cut) \<Rightarrow>
                               if cost < best_cost then Some (cost, C)
                               else Some (best_cost, best_cut))))"

text \<open>
  The fallback. \<^verbatim>\<open>proxy\<close> reads the dictionaries with defaults and adds \<^verbatim>\<open>1.0\<close> to the
  built-in \<^verbatim>\<open>sum\<close> of the quotients, taken in iteration order; how \<^verbatim>\<open>sum\<close> accumulates floats
  differs between CPython versions (plain additions, or a compensated sum from 3.12
  on), so it is the parameter \<open>float_sum\<close>. The copy \<^verbatim>\<open>set(c)\<close> of a cut is taken to iterate
  like the cut. \<^verbatim>\<open>min(cands, key=proxy)\<close> returns the first candidate of least proxy.
\<close>

definition proxy ::
  "(double list \<Rightarrow> double) \<Rightarrow> 'a set \<Rightarrow> ('a \<times> nat) list \<Rightarrow> ('a \<times> double) list \<Rightarrow> 'a list
     \<Rightarrow> double" where
  "proxy float_sum PIs refcnt area_flow us =
     fadd (Finite 1)
       (float_sum
          (map (\<lambda>u. fdiv (case map_of area_flow u of None \<Rightarrow> Finite 0 | Some a \<Rightarrow> a)
                          (max 1 (case map_of refcnt u of None \<Rightarrow> 1 | Some r \<Rightarrow> r)))
               (filter (\<lambda>u. u \<notin> PIs) us)))"

fun first_min :: "('b \<Rightarrow> double) \<Rightarrow> 'b \<Rightarrow> 'b list \<Rightarrow> 'b" where
  "first_min key m [] = m"
| "first_min key m (x # xs) = first_min key (if key x < key m then x else m) xs"

definition fallback_cut ::
  "(double list \<Rightarrow> double) \<Rightarrow> ('a \<Rightarrow> 'a cut \<Rightarrow> 'a list)
     \<Rightarrow> 'a set \<Rightarrow> ('a \<times> nat) list \<Rightarrow> ('a \<times> double) list
     \<Rightarrow> ('a \<times> ('a cut \<times> int) list) list \<Rightarrow> 'a
     \<Rightarrow> 'a error + (double \<times> 'a cut)" where
  "fallback_cut float_sum iter PIs refcnt area_flow cut_depth v =
     (case map_of cut_depth v of
        None \<Rightarrow> Inl KeyError
      | Some cdv \<Rightarrow>
          (case map snd cdv of
             [] \<Rightarrow> Inl EmptySequence
           | d # ds \<Rightarrow>
               (let min_d = fold min ds d;
                    cands = map fst (filter (\<lambda>(c, dv). dv = min_d) cdv);
                    key = (\<lambda>C2. proxy float_sum PIs refcnt area_flow (iter v C2))
                in case cands of
                     [] \<Rightarrow> Inl EmptySequence
                   | c # cs \<Rightarrow>
                       (let best_cut = first_min key c cs
                        in Inr (key best_cut, best_cut)))))"

text \<open>The built-in \<^verbatim>\<open>sum\<close> as plain float additions from the left (CPython before 3.12),
  for the examples.\<close>

definition plain_sum :: "double list \<Rightarrow> double" where
  "plain_sum xs = fold (\<lambda>x acc. fadd acc x) xs (Finite 0)"

text \<open>The main loop of \<^verbatim>\<open>area_recovery\<close>. The code of the \<^verbatim>\<open>if best_cut is None\<close> branch
  is the parameter \<open>fallback\<close>, so that a statement can say whether a run depends on it;
  \<open>area_recovery\<close> itself runs the loop with \<open>fallback_cut\<close>, the source's branch.\<close>

fun area_loop ::
  "('a set \<Rightarrow> ('a \<times> nat) list \<Rightarrow> ('a \<times> double) list \<Rightarrow> ('a \<times> ('a cut \<times> int) list) list \<Rightarrow> 'a
      \<Rightarrow> 'a error + (double \<times> 'a cut))
     \<Rightarrow> ('a \<Rightarrow> 'a cut \<Rightarrow> 'a list)
     \<Rightarrow> 'a set \<Rightarrow> ('a \<times> nat) list \<Rightarrow> ('a \<times> int) list \<Rightarrow> ('a \<times> 'a cut list) list
     \<Rightarrow> ('a \<times> ('a cut \<times> int) list) list \<Rightarrow> 'a list
     \<Rightarrow> ('a \<times> 'a cut) list \<times> ('a \<times> double) list
     \<Rightarrow> 'a error + (('a \<times> 'a cut) list \<times> ('a \<times> double) list)" where
  "area_loop fallback iter PIs refcnt labels node_cuts cut_depth [] st = Inr st"
| "area_loop fallback iter PIs refcnt labels node_cuts cut_depth (v # vs)
     (best_cut_area, area_flow) =
     (if v \<in> PIs
      then area_loop fallback iter PIs refcnt labels node_cuts cut_depth vs
             (AList.update v {v} best_cut_area, AList.update v (Finite 0) area_flow)
      else case map_of node_cuts v of
             None \<Rightarrow> Inl KeyError
           | Some cuts \<Rightarrow>
               (case select_cut iter PIs refcnt area_flow labels cut_depth v cuts None of
                  Inl e \<Rightarrow> Inl e
                | Inr (Some (best_cost, best_cut)) \<Rightarrow>
                    area_loop fallback iter PIs refcnt labels node_cuts cut_depth vs
                      (AList.update v best_cut best_cut_area, AList.update v best_cost area_flow)
                | Inr None \<Rightarrow>
                    (case fallback PIs refcnt area_flow cut_depth v of
                       Inl e \<Rightarrow> Inl e
                     | Inr (best_cost, best_cut) \<Rightarrow>
                         area_loop fallback iter PIs refcnt labels node_cuts cut_depth vs
                           (AList.update v best_cut best_cut_area,
                            AList.update v best_cost area_flow))))"

definition area_recovery_with ::
  "('a set \<Rightarrow> ('a \<times> nat) list \<Rightarrow> ('a \<times> double) list \<Rightarrow> ('a \<times> ('a cut \<times> int) list) list \<Rightarrow> 'a
      \<Rightarrow> 'a error + (double \<times> 'a cut))
     \<Rightarrow> ('a \<Rightarrow> 'a cut \<Rightarrow> 'a list)
     \<Rightarrow> 'a graph \<Rightarrow> int \<Rightarrow> ('a \<times> int) list \<Rightarrow> ('a \<times> 'a cut list) list
     \<Rightarrow> ('a \<times> ('a cut \<times> int) list) list
     \<Rightarrow> 'a error + (('a \<times> 'a cut) list \<times> ('a \<times> double) list)" where
  "area_recovery_with fallback iter g K labels node_cuts cut_depth =
     (case topo_sort g of
        Inl e \<Rightarrow> Inl e
      | Inr (topo, _) \<Rightarrow>
          (case compute_refcounts g of
             Inl e \<Rightarrow> Inl e
           | Inr refcnt \<Rightarrow>
               area_loop fallback iter (primary_inputs g) refcnt labels node_cuts cut_depth topo
                 ([], [])))"

definition area_recovery ::
  "(double list \<Rightarrow> double) \<Rightarrow> ('a \<Rightarrow> 'a cut \<Rightarrow> 'a list)
     \<Rightarrow> 'a graph \<Rightarrow> int \<Rightarrow> ('a \<times> int) list \<Rightarrow> ('a \<times> 'a cut list) list
     \<Rightarrow> ('a \<times> ('a cut \<times> int) list) list
     \<Rightarrow> 'a error + (('a \<times> 'a cut) list \<times> ('a \<times> double) list)" where
  "area_recovery float_sum iter =
     area_recovery_with (fallback_cut float_sum iter) iter"

subsection \<open>LUT cover construction\<close>

record 'a lut =
  lut_output :: 'a
  lut_inputs :: "'a list"
  lut_level :: int

text \<open>
  \<^verbatim>\<open>place\<close> is a depth-first traversal whose recursive calls are the last thing it does,
  so it is a loop over a stack of pending nodes: \<^verbatim>\<open>place(v)\<close> on a fresh gate appends
  its LUT, marks it covered, and puts the non-PI members of its cut in front of the
  nodes still pending, in the iteration order \<open>iter v C\<close> of the cut.
\<close>

function place_all ::
  "('a \<Rightarrow> 'a cut \<Rightarrow> 'a list) \<Rightarrow> 'a set \<Rightarrow> ('a \<times> 'a cut) list \<Rightarrow> ('a \<times> int) list
     \<Rightarrow> 'a::linorder list \<Rightarrow> 'a set \<Rightarrow> 'a lut list \<Rightarrow> 'a error + 'a lut list" where
  "place_all iter PIs chosen_cut labels [] covered LUTs = Inr LUTs"
| "place_all iter PIs chosen_cut labels (v # stack) covered LUTs =
     (if v \<in> covered \<or> v \<in> PIs then place_all iter PIs chosen_cut labels stack covered LUTs
      else case map_of chosen_cut v of
             None \<Rightarrow> Inl KeyError
           | Some C \<Rightarrow>
               (case map_of labels v of
                  None \<Rightarrow> Inl KeyError
                | Some l \<Rightarrow>
                    place_all iter PIs chosen_cut labels
                      (filter (\<lambda>u. u \<notin> PIs) (iter v C) @ stack)
                      (insert v covered)
                      (LUTs @ [\<lparr>lut_output = v, lut_inputs = sorted_list_of_set C, lut_level = l\<rparr>])))"
  by pat_completeness auto

termination place_all
proof (relation "measures [\<lambda>(iter, PIs, chosen_cut, labels, stack, covered, LUTs).
                              card (fst ` set chosen_cut - covered),
                           \<lambda>(iter, PIs, chosen_cut, labels, stack, covered, LUTs). length stack]",
       goal_cases)
  case 1
  show ?case by simp
next
  case 2
  then show ?case by simp
next
  case (3 iter PIs chosen_cut labels v stack covered LUTs C l)
  from \<open>map_of chosen_cut v = Some C\<close> have "v \<in> fst ` set chosen_cut"
    by (metis domI dom_map_of_conv_image_fst)
  moreover from 3 have "v \<notin> covered" by simp
  ultimately have "card (fst ` set chosen_cut - insert v covered)
                   < card (fst ` set chosen_cut - covered)"
    by (intro psubset_card_mono) auto
  then show ?case by simp
qed

definition build_cover ::
  "('a \<Rightarrow> 'a cut \<Rightarrow> 'a list) \<Rightarrow> 'a::linorder graph \<Rightarrow> ('a \<times> 'a cut) list \<Rightarrow> ('a \<times> int) list
     \<Rightarrow> 'a list option \<Rightarrow> 'a error + 'a lut list" where
  "build_cover iter g chosen_cut labels outputs_opt =
     (let outputs = (case outputs_opt of None \<Rightarrow> detect_outputs g | Some os \<Rightarrow> os)
      in case place_all iter (primary_inputs g) chosen_cut labels outputs {} [] of
           Inl e \<Rightarrow> Inl e
         | Inr LUTs \<Rightarrow> Inr (sort_key (\<lambda>x. (lut_level x, lut_output x)) LUTs))"

subsection \<open>The pipeline\<close>

definition map_with_area_optimized_flow ::
  "(double list \<Rightarrow> double) \<Rightarrow> ('a \<Rightarrow> 'a cut \<Rightarrow> 'a list)
     \<Rightarrow> 'a::linorder graph \<Rightarrow> int \<Rightarrow> 'a list option \<Rightarrow> int option
     \<Rightarrow> 'a error + (('a \<times> int) list \<times> ('a \<times> 'a cut) list \<times> 'a lut list)" where
  "map_with_area_optimized_flow float_sum iter g K outputs cut_limit =
     (case enumerate_minimal_kcuts g K cut_limit of
        Inl e \<Rightarrow> Inl e
      | Inr node_cuts0 \<Rightarrow>
          (case flowmap_labels g K (Some node_cuts0) of
             Inl e \<Rightarrow> Inl e
           | Inr (labels, node_cuts, cut_depth) \<Rightarrow>
               (case area_recovery float_sum iter g K labels node_cuts cut_depth of
                  Inl e \<Rightarrow> Inl e
                | Inr (best_cut_area, area_flow) \<Rightarrow>
                    (case build_cover iter g best_cut_area labels outputs of
                       Inl e \<Rightarrow> Inl e
                     | Inr LUTs \<Rightarrow> Inr (labels, best_cut_area, LUTs)))))"

text \<open>Two iteration orders for the examples: ascending and descending node names.\<close>

definition iter_up :: "'a::linorder \<Rightarrow> 'a cut \<Rightarrow> 'a list" where
  "iter_up v C = sorted_list_of_set C"

definition iter_down :: "'a::linorder \<Rightarrow> 'a cut \<Rightarrow> 'a list" where
  "iter_down v C = rev (sorted_list_of_set C)"

subsection \<open>Cuts of the graph, and the example networks\<close>

text \<open>
  The data model's notion of a cut: \<open>C\<close> is a cut of \<open>v\<close> when every path from a primary
  input to \<open>v\<close> passes through a node of \<open>C\<close>. On a DAG that is: \<open>v\<close> is in \<open>C\<close>, or \<open>v\<close> is
  a gate all of whose fanins are cut by \<open>C\<close>.
\<close>

inductive separates :: "'a graph \<Rightarrow> 'a set \<Rightarrow> 'a \<Rightarrow> bool" for g :: "'a graph" and C :: "'a set" where
  in_cut: "v \<in> C \<Longrightarrow> separates g C v"
| by_fanins: "map_of g v = Some fins \<Longrightarrow> fins \<noteq> [] \<Longrightarrow> (\<forall>u\<in>set fins. separates g C u)
                \<Longrightarrow> separates g C v"

text \<open>The AND/OR network of the demo (scenarios S1 and S2).\<close>

definition graph_S2 :: "string graph" where
  "graph_S2 = [(''a'', []), (''b'', []), (''c'', []),
               (''and1'', [''a'', ''b'']), (''or1'', [''and1'', ''c''])]"

text \<open>A three-input gate (scenario S6).\<close>

definition graph_S6 :: "string graph" where
  "graph_S6 = [(''a'', []), (''b'', []), (''c'', []), (''g'', [''a'', ''b'', ''c''])]"

text \<open>Two graphs that are not DAGs over their own keys: a missing fanin, and a cycle (S5).\<close>

definition graph_missing :: "string graph" where
  "graph_missing = [(''v'', [''u''])]"

definition graph_cycle :: "string graph" where
  "graph_cycle = [(''x'', [''y'']), (''y'', [''x''])]"

text \<open>A gate \<open>v\<close> over a two-input gate \<open>x\<close> and a gate \<open>y\<close> of two two-input gates.\<close>

definition graph_mixed :: "string graph" where
  "graph_mixed = [(''a'', []), (''b'', []), (''c'', []), (''d'', []), (''e'', []), (''f'', []),
                  (''x'', [''a'', ''b'']), (''p'', [''c'', ''d'']), (''q'', [''e'', ''f'']),
                  (''y'', [''p'', ''q'']), (''v'', [''x'', ''y''])]"

text \<open>A chain of two buffers \<open>p\<close>, \<open>t\<close> behind a gate \<open>q\<close>, feeding \<open>v\<close> together with \<open>c\<close>.\<close>

definition graph_chain :: "string graph" where
  "graph_chain = [(''a'', []), (''b'', []), (''c'', []), (''q'', [''a'', ''b'']),
                  (''p'', [''q'']), (''t'', [''p'']), (''v'', [''t'', ''c''])]"

text \<open>What the labelling and the area recovery compute on \<open>graph_chain\<close> with \<open>K = 2\<close>
  (the theorems below evaluate the code to these values).\<close>

definition chain_labels :: "(string \<times> int) list" where
  "chain_labels = [(''a'', 0), (''b'', 0), (''c'', 0), (''q'', 1), (''p'', 1), (''t'', 1),
                   (''v'', 2)]"

definition chain_cuts :: "(string \<times> string cut list) list" where
  "chain_cuts = [(''a'', [{''a''}]), (''b'', [{''b''}]), (''c'', [{''c''}]),
                 (''q'', [{''a'', ''b''}]), (''p'', [{''a'', ''b''}, {''q''}]),
                 (''t'', [{''a'', ''b''}, {''q''}, {''p''}]),
                 (''v'', [{''q'', ''c''}, {''p'', ''c''}, {''t'', ''c''}])]"

definition chain_depth :: "(string \<times> (string cut \<times> int) list) list" where
  "chain_depth = [(''a'', [({''a''}, 0)]), (''b'', [({''b''}, 0)]), (''c'', [({''c''}, 0)]),
                  (''q'', [({''a'', ''b''}, 1)]), (''p'', [({''a'', ''b''}, 1), ({''q''}, 2)]),
                  (''t'', [({''a'', ''b''}, 1), ({''q''}, 2), ({''p''}, 2)]),
                  (''v'', [({''q'', ''c''}, 2), ({''p'', ''c''}, 2), ({''t'', ''c''}, 2)])]"

definition chain_refcnt :: "(string \<times> nat) list" where
  "chain_refcnt = [(''a'', 1), (''b'', 1), (''c'', 1), (''q'', 1), (''p'', 1), (''t'', 1),
                   (''v'', 1)]"

definition chain_flow :: "(string \<times> double) list" where
  "chain_flow = [(''a'', Finite 0), (''b'', Finite 0), (''c'', Finite 0), (''q'', Finite 1),
                 (''p'', Finite 1), (''t'', Finite 1), (''v'', Finite 2)]"

definition chain_chosen :: "(string \<times> string cut) list" where
  "chain_chosen = [(''a'', {''a''}), (''b'', {''b''}), (''c'', {''c''}), (''q'', {''a'', ''b''}),
                   (''p'', {''a'', ''b''}), (''t'', {''a'', ''b''}), (''v'', {''q'', ''c''})]"

text \<open>The labels computed on \<open>graph_mixed\<close> with \<open>K = 3\<close>.\<close>

definition mixed_labels :: "(string \<times> int) list" where
  "mixed_labels = [(''a'', 0), (''b'', 0), (''c'', 0), (''d'', 0), (''e'', 0), (''f'', 0),
                   (''x'', 1), (''p'', 1), (''q'', 1), (''y'', 2), (''v'', 3)]"

text \<open>
  Two gates \<open>n\<close> and \<open>k\<close> of three fanouts each and a gate \<open>m\<close> of one fanout, behind the
  buffers \<open>s\<close> and \<open>t\<close> that feed \<open>v\<close>: with \<open>K = 2\<close> the cuts \<open>{m, n}\<close> and \<open>{m, k}\<close> of \<open>v\<close> both
  cost \<open>1 + 1 + 1/3\<close>.
\<close>

definition graph_tie :: "string graph" where
  "graph_tie = [(''a'', []), (''b'', []), (''c'', []), (''d'', []),
                (''m'', [''a'', ''b'']), (''s'', [''m'']),
                (''n'', [''c'', ''d'']), (''k'', [''n'']), (''t'', [''k'']),
                (''x1'', [''n'', ''k'']), (''x2'', [''n'', ''k'']),
                (''v'', [''s'', ''t''])]"

text \<open>What the enumeration, the labelling and the area recovery compute on \<open>graph_tie\<close>
  with \<open>K = 2\<close> (the theorems below evaluate the code to these values); the chosen cuts
  are those of a run that iterates sets in ascending order, and of one that iterates
  them in descending order.\<close>

definition tie_cuts :: "(string \<times> string cut list) list" where
  "tie_cuts = [(''a'', [{''a''}]), (''b'', [{''b''}]), (''c'', [{''c''}]), (''d'', [{''d''}]),
               (''m'', [{''a'', ''b''}]), (''n'', [{''c'', ''d''}]),
               (''s'', [{''a'', ''b''}, {''m''}]), (''k'', [{''c'', ''d''}, {''n''}]),
               (''t'', [{''c'', ''d''}, {''n''}, {''k''}]),
               (''x1'', [{''c'', ''d''}, {''n'', ''k''}]),
               (''x2'', [{''c'', ''d''}, {''n'', ''k''}]),
               (''v'', [{''m'', ''n''}, {''m'', ''k''}, {''s'', ''t''}])]"

definition tie_labels :: "(string \<times> int) list" where
  "tie_labels = [(''a'', 0), (''b'', 0), (''c'', 0), (''d'', 0), (''m'', 1), (''n'', 1),
                 (''s'', 1), (''k'', 1), (''t'', 1), (''x1'', 1), (''x2'', 1), (''v'', 2)]"

definition tie_depth :: "(string \<times> (string cut \<times> int) list) list" where
  "tie_depth = [(''a'', [({''a''}, 0)]), (''b'', [({''b''}, 0)]), (''c'', [({''c''}, 0)]),
                (''d'', [({''d''}, 0)]), (''m'', [({''a'', ''b''}, 1)]),
                (''s'', [({''a'', ''b''}, 1), ({''m''}, 2)]),
                (''n'', [({''c'', ''d''}, 1)]),
                (''k'', [({''c'', ''d''}, 1), ({''n''}, 2)]),
                (''t'', [({''c'', ''d''}, 1), ({''n''}, 2), ({''k''}, 2)]),
                (''x1'', [({''c'', ''d''}, 1), ({''n'', ''k''}, 2)]),
                (''x2'', [({''c'', ''d''}, 1), ({''n'', ''k''}, 2)]),
                (''v'', [({''m'', ''n''}, 2), ({''m'', ''k''}, 2), ({''s'', ''t''}, 2)])]"

definition tie_refcnt :: "(string \<times> nat) list" where
  "tie_refcnt = [(''a'', 1), (''b'', 1), (''c'', 1), (''d'', 1), (''m'', 1), (''s'', 1),
                 (''n'', 3), (''k'', 3), (''t'', 1), (''x1'', 1), (''x2'', 1), (''v'', 1)]"

text \<open>The doubles \<^verbatim>\<open>2.333333333333333\<close> and \<^verbatim>\<open>2.3333333333333335\<close>, one unit in the last
  place apart.\<close>

definition cost_low :: double where
  "cost_low = Finite (2627099782632789 / 1125899906842624)"

definition cost_high :: double where
  "cost_high = Finite (5254199565265579 / 2251799813685248)"

definition tie_flow :: "(string \<times> double) list" where
  "tie_flow = [(''a'', Finite 0), (''b'', Finite 0), (''c'', Finite 0), (''d'', Finite 0),
               (''m'', Finite 1), (''n'', Finite 1), (''s'', Finite 1), (''k'', Finite 1),
               (''t'', Finite 1), (''x1'', Finite 1), (''x2'', Finite 1), (''v'', cost_low)]"

definition tie_chosen_up :: "(string \<times> string cut) list" where
  "tie_chosen_up = [(''a'', {''a''}), (''b'', {''b''}), (''c'', {''c''}), (''d'', {''d''}),
                    (''m'', {''a'', ''b''}), (''n'', {''c'', ''d''}), (''s'', {''a'', ''b''}),
                    (''k'', {''c'', ''d''}), (''t'', {''c'', ''d''}), (''x1'', {''c'', ''d''}),
                    (''x2'', {''c'', ''d''}), (''v'', {''m'', ''k''})]"

definition tie_chosen_down :: "(string \<times> string cut) list" where
  "tie_chosen_down = [(''a'', {''a''}), (''b'', {''b''}), (''c'', {''c''}), (''d'', {''d''}),
                      (''m'', {''a'', ''b''}), (''n'', {''c'', ''d''}), (''s'', {''a'', ''b''}),
                      (''k'', {''c'', ''d''}), (''t'', {''c'', ''d''}), (''x1'', {''c'', ''d''}),
                      (''x2'', {''c'', ''d''}), (''v'', {''m'', ''n''})]"

subsection \<open>Invariants of the loops\<close>

text \<open>What holds of \<^verbatim>\<open>node_cuts\<close> while the enumeration runs: every recorded cut is a
  finite, non-empty set of nodes that already have an entry, and a gate's cut has at
  most \<open>K\<close> nodes and does not contain the gate.\<close>

definition cuts_ok :: "'a set \<Rightarrow> int \<Rightarrow> ('a \<times> 'a cut list) list \<Rightarrow> bool" where
  "cuts_ok PIs K nc \<longleftrightarrow>
     (\<forall>w cuts C. map_of nc w = Some cuts \<longrightarrow> C \<in> set cuts \<longrightarrow>
        finite C \<and> C \<noteq> {} \<and> C \<subseteq> fst ` set nc \<and> (w \<notin> PIs \<longrightarrow> w \<notin> C \<and> int (card C) \<le> K))"

text \<open>A cut \<open>C\<close> of \<open>v\<close> passes the depth filter of \<^verbatim>\<open>area_recovery\<close>:
  \<^verbatim>\<open>cut_depth[v][C] <= labels[v]\<close>.\<close>

definition admissible ::
  "('a \<times> int) list \<Rightarrow> ('a \<times> ('a cut \<times> int) list) list \<Rightarrow> 'a \<Rightarrow> 'a cut \<Rightarrow> bool" where
  "admissible labels cut_depth v C \<longleftrightarrow>
     (\<exists>d lv. cut_depth_at cut_depth v C = Some d \<and> map_of labels v = Some lv \<and> d \<le> lv)"

section \<open>Properties\<close>

subsection \<open>The enumeration on the demo network\<close>

lemma S2_enum:
  "enumerate_minimal_kcuts graph_S2 3 None = Inr
     [(''a'', [{''a''}]), (''b'', [{''b''}]), (''c'', [{''c''}]), (''and1'', [{''a'', ''b''}]),
      (''or1'', [{''a'', ''b'', ''c''}, {''and1'', ''c''}])]"
  by code_simp

subsection \<open>Kahn's algorithm\<close>

lemma relax_queue:
  "relax ws indeg q = (indeg', q') \<Longrightarrow> \<exists>add. q' = q @ add \<and> set add \<subseteq> set ws"
proof (induction ws arbitrary: indeg q)
  case Nil
  then show ?case by simp
next
  case (Cons w ws)
  let ?i = "indeg(w := indeg w - 1)"
  let ?q = "if ?i w = 0 then q @ [w] else q"
  from Cons.prems have "relax ws ?i ?q = (indeg', q')" by (simp add: Let_def)
  from Cons.IH[OF this] obtain add where "q' = ?q @ add" "set add \<subseteq> set ws" by blast
  then show ?case by (cases "?i w = 0") auto
qed

lemma relax_indeg:
  "relax ws indeg q = (indeg', q') \<Longrightarrow> indeg' w = indeg w - int (count_list ws w)"
proof (induction ws arbitrary: indeg q)
  case Nil
  then show ?case by simp
next
  case (Cons x ws)
  let ?i = "indeg(x := indeg x - 1)"
  let ?q = "if ?i x = 0 then q @ [x] else q"
  from Cons.prems have "relax ws ?i ?q = (indeg', q')" by (simp add: Let_def)
  from Cons.IH[OF this] show ?case by simp
qed

lemma relax_inv:
  assumes "relax ws indeg q = (indeg', q')"
    and "distinct (xs @ q)" and "\<forall>w\<in>set (xs @ q). indeg w \<le> 0"
  shows "distinct (xs @ q') \<and> (\<forall>w\<in>set (xs @ q'). indeg' w \<le> 0)"
  using assms
proof (induction ws arbitrary: indeg q)
  case Nil
  then show ?case by simp
next
  case (Cons x ws)
  let ?i = "indeg(x := indeg x - 1)"
  let ?q = "if ?i x = 0 then q @ [x] else q"
  from Cons.prems(1) have r: "relax ws ?i ?q = (indeg', q')" by (simp add: Let_def)
  have d: "distinct (xs @ ?q)"
  proof (cases "?i x = 0")
    case True
    then have "\<not> indeg x \<le> 0" by simp
    with Cons.prems(3) have "x \<notin> set (xs @ q)" by blast
    with Cons.prems(2) True show ?thesis by simp
  next
    case False
    with Cons.prems(2) show ?thesis by simp
  qed
  have n: "\<forall>w\<in>set (xs @ ?q). ?i w \<le> 0"
  proof
    fix w assume w: "w \<in> set (xs @ ?q)"
    show "?i w \<le> 0"
    proof (cases "w \<in> set (xs @ q)")
      case True
      with Cons.prems(3) have "indeg w \<le> 0" by blast
      then show ?thesis by auto
    next
      case False
      with w have "w = x \<and> ?i x = 0" by (auto split: if_splits)
      then show ?thesis by simp
    qed
  qed
  from Cons.IH[OF r d n] show ?case .
qed

lemma kahn_inv:
  "distinct (order @ q) \<Longrightarrow> \<forall>w\<in>set (order @ q). indeg w \<le> 0 \<Longrightarrow> set (order @ q) \<subseteq> fst ` set g
   \<Longrightarrow> distinct (kahn g indeg q order) \<and> set (kahn g indeg q order) \<subseteq> fst ` set g"
proof (induction g indeg q order rule: kahn.induct)
  case (1 g indeg order)
  then show ?case by simp
next
  case (2 g indeg u q order)
  obtain indeg' q' where r: "relax (fanouts_of g u) indeg q = (indeg', q')"
    by (cases "relax (fanouts_of g u) indeg q")
  from "2.prems" have d: "distinct ((order @ [u]) @ q)"
    and n: "\<forall>w\<in>set ((order @ [u]) @ q). indeg w \<le> 0"
    by auto
  from relax_inv[OF r d n]
  have d': "distinct ((order @ [u]) @ q')" and n': "\<forall>w\<in>set ((order @ [u]) @ q'). indeg' w \<le> 0"
    by blast+
  from relax_queue[OF r] obtain add where "q' = q @ add" "set add \<subseteq> set (fanouts_of g u)"
    by blast
  with fanouts_of_keys[of g u] have "set q' \<subseteq> set q \<union> fst ` set g" by auto
  with "2.prems"(3) have s': "set ((order @ [u]) @ q') \<subseteq> fst ` set g" by auto
  from "2.IH"[OF r[symmetric] d' n' s'] r show ?case by simp
qed

lemma topo_sort_order:
  assumes "topo_sort g = Inr (topo, fo)" and "distinct (map fst g)"
  shows "distinct topo \<and> set topo = fst ` set g \<and> fo = fanouts_of g"
proof -
  let ?q = "filter (\<lambda>n. indeg_init g n = 0) (map fst g)"
  from assms(1) have t: "topo = kahn g (indeg_init g) ?q []" and len: "length topo = length g"
    and fo: "fo = fanouts_of g"
    by (auto simp: topo_sort_def Let_def split: if_splits)
  have "distinct (kahn g (indeg_init g) ?q []) \<and> set (kahn g (indeg_init g) ?q []) \<subseteq> fst ` set g"
    by (rule kahn_inv) (use assms(2) in auto)
  with t have d: "distinct topo" and s: "set topo \<subseteq> fst ` set g" by simp_all
  from d len have "card (set topo) = length g" by (simp add: distinct_card)
  also from assms(2) have "length g = card (fst ` set g)"
    by (metis distinct_card length_map set_map)
  finally have "set topo = fst ` set g"
    using s by (simp add: card_subset_eq)
  with d fo show ?thesis by simp
qed

subsection \<open>A fanin that is not a key\<close>

lemma kahn_missing:
  "kahn graph_missing (indeg_init graph_missing)
     (filter (\<lambda>n. indeg_init graph_missing n = 0) (map fst graph_missing)) [] = []"
  by code_simp

lemma kahn_cycle:
  "kahn graph_cycle (indeg_init graph_cycle)
     (filter (\<lambda>n. indeg_init graph_cycle n = 0) (map fst graph_cycle)) [] = []"
  by code_simp

text \<open>
  Claim C7 (counterexample). The graph \<open>{v: [u]}\<close> names a fanin \<open>u\<close> that is not a key.
  \<open>topo_sort\<close> fails on it with the error it gives for the cycle \<open>{x: [y], y: [x]}\<close>:
  there is no separate missing-fanin error.
\<close>

theorem missing_fanin_counterexample:
  "topo_sort graph_missing = Inl GraphNotDag \<and> topo_sort graph_cycle = Inl GraphNotDag"
  unfolding topo_sort_def Let_def kahn_missing kahn_cycle
  by (simp add: graph_missing_def graph_cycle_def)

lemma count_const_map: "count_list (map (\<lambda>_. k) zs) v = (if k = v then length zs else 0)"
  by (induction zs) auto

lemma fanouts_of_Cons:
  "fanouts_of ((k, f) # g) u = map (\<lambda>_. k) (filter (\<lambda>x. x = u) f) @ fanouts_of g u"
  by (simp add: fanouts_of_def)

lemma fanouts_count:
  "distinct (map fst g) \<Longrightarrow> (v, fins) \<in> set g
     \<Longrightarrow> count_list (fanouts_of g u) v = length (filter (\<lambda>x. x = u) fins)"
proof (induction g)
  case Nil
  then show ?case by simp
next
  case (Cons kf g)
  obtain k f where kf: "kf = (k, f)" by (cases kf)
  show ?case
  proof (cases "(v, fins) = (k, f)")
    case True
    with Cons.prems kf have "v \<notin> fst ` set g" by auto
    with fanouts_of_keys[of g u] have "v \<notin> set (fanouts_of g u)" by blast
    then have "count_list (fanouts_of g u) v = 0" by (simp add: count_list_0_iff)
    with True kf show ?thesis by (simp add: fanouts_of_Cons count_const_map)
  next
    case False
    with Cons.prems kf have in_g: "(v, fins) \<in> set g" and "k \<noteq> v" by force+
    with Cons.IH Cons.prems kf show ?thesis by (simp add: fanouts_of_Cons count_const_map)
  qed
qed

lemma filter_split_length:
  assumes "u \<notin> set order"
  shows "int (length (filter (\<lambda>x. x \<notin> set (order @ [u])) fins))
         = int (length (filter (\<lambda>x. x \<notin> set order) fins)) - int (length (filter (\<lambda>x. x = u) fins))"
  using assms by (induction fins) auto

lemma kahn_blocked:
  "distinct (map fst g) \<Longrightarrow> (v, fins) \<in> set g \<Longrightarrow> u \<in> set fins \<Longrightarrow> u \<notin> fst ` set g
     \<Longrightarrow> distinct (order @ q) \<Longrightarrow> \<forall>w\<in>set (order @ q). indeg w \<le> 0
     \<Longrightarrow> set (order @ q) \<subseteq> fst ` set g
     \<Longrightarrow> indeg v = int (length (filter (\<lambda>x. x \<notin> set order) fins))
     \<Longrightarrow> v \<notin> set (kahn g indeg q order)"
proof (induction g indeg q order rule: kahn.induct)
  case (1 g indeg order)
  from "1.prems"(7,4) have "u \<notin> set order" by auto
  with "1.prems"(3) have "filter (\<lambda>x. x \<notin> set order) fins \<noteq> []"
    by (auto simp: filter_empty_conv)
  with "1.prems"(8) have "0 < indeg v" by simp
  with "1.prems"(6) show ?case by auto
next
  case (2 g indeg u' q order)
  note g = "2.prems"(1-4)
  obtain indeg' q' where r: "relax (fanouts_of g u') indeg q = (indeg', q')"
    by (cases "relax (fanouts_of g u') indeg q")
  from "2.prems"(5,6) have d: "distinct ((order @ [u']) @ q)"
    and n: "\<forall>w\<in>set ((order @ [u']) @ q). indeg w \<le> 0"
    and u': "u' \<notin> set order"
    by auto
  from relax_inv[OF r d n]
  have d': "distinct ((order @ [u']) @ q')" and n': "\<forall>w\<in>set ((order @ [u']) @ q'). indeg' w \<le> 0"
    by blast+
  from relax_queue[OF r] obtain add where "q' = q @ add" "set add \<subseteq> set (fanouts_of g u')"
    by blast
  with fanouts_of_keys[of g u'] have "set q' \<subseteq> set q \<union> fst ` set g" by auto
  with "2.prems"(7) have s': "set ((order @ [u']) @ q') \<subseteq> fst ` set g" by auto
  have "indeg' v = indeg v - int (count_list (fanouts_of g u') v)"
    by (rule relax_indeg[OF r])
  also have "count_list (fanouts_of g u') v = length (filter (\<lambda>x. x = u') fins)"
    by (rule fanouts_count[OF g(1) g(2)])
  finally have i': "indeg' v = int (length (filter (\<lambda>x. x \<notin> set (order @ [u'])) fins))"
    using "2.prems"(8) filter_split_length[OF u', of fins] by simp
  from "2.IH"[OF r[symmetric] g d' n' s' i'] r show ?case by simp
qed

text \<open>
  Claim C7 (as amended). When some node \<open>v\<close> of the graph lists a fanin \<open>u\<close> that is not a
  key, \<open>topo_sort\<close> fails with the error it raises for a cycle, and so does the whole
  pipeline (after the check of \<open>K\<close>); the error names neither \<open>v\<close> nor \<open>u\<close>.
\<close>

theorem missing_fanin_not_dag:
  assumes "distinct (map fst g)" and "(v, fins) \<in> set g" and "u \<in> set fins"
    and "u \<notin> fst ` set g"
  shows "topo_sort g = Inl GraphNotDag \<and>
         map_with_area_optimized_flow float_sum iter g K outputs cut_limit
           = Inl (if K < 1 then KTooSmall else GraphNotDag)"
proof -
  let ?q = "filter (\<lambda>n. indeg_init g n = 0) (map fst g)"
  let ?order = "kahn g (indeg_init g) ?q []"
  from assms(1,2) have "map_of g v = Some fins" by simp
  then have i: "indeg_init g v = int (length (filter (\<lambda>x. x \<notin> set []) fins))"
    by (simp add: indeg_init_def)
  have d0: "distinct ([] @ ?q)" and n0: "\<forall>w\<in>set ([] @ ?q). indeg_init g w \<le> 0"
    and s0: "set ([] @ ?q) \<subseteq> fst ` set g"
    using assms(1) by auto
  have v: "v \<notin> set ?order"
    by (rule kahn_blocked[OF assms d0 n0 s0 i])
  from kahn_inv[OF d0 n0 s0] have d: "distinct ?order" and s: "set ?order \<subseteq> fst ` set g"
    by blast+
  from assms(2) have "v \<in> fst ` set g" by force
  with v s have "set ?order \<subset> fst ` set g" by blast
  then have "card (set ?order) < card (fst ` set g)"
    by (intro psubset_card_mono) auto
  moreover have "card (fst ` set g) \<le> length g"
    by (metis card_length length_map set_map)
  ultimately have "length ?order \<noteq> length g"
    using d by (simp add: distinct_card)
  then have t: "topo_sort g = Inl GraphNotDag"
    by (simp add: topo_sort_def Let_def)
  then show ?thesis
    by (simp add: map_with_area_optimized_flow_def enumerate_minimal_kcuts_def)
qed

theorem missing_fanin_not_dag_witness:
  "topo_sort graph_missing = Inl GraphNotDag \<and>
   map_with_area_optimized_flow plain_sum iter_up graph_missing 1 None None = Inl GraphNotDag"
  using missing_fanin_not_dag[of graph_missing "''v''" "[''u'']" "''u''" plain_sum iter_up 1 None None]
  by (simp add: graph_missing_def)

subsection \<open>The enumerated cuts\<close>

lemma dedup_subset: "set (dedup cs seen) \<subseteq> set cs"
  by (induction cs arbitrary: seen) auto

lemma minimalize_cuts_subset: "set (minimalize_cuts cuts) \<subseteq> set cuts"
proof -
  have "set (map (\<lambda>i. cuts ! i) (filter (\<lambda>i. \<not> dominated cuts i) [0..<length cuts])) \<subseteq> set cuts"
    by auto
  with dedup_subset show ?thesis
    unfolding minimalize_cuts_def Let_def by blast
qed

lemma py_take_subset: "set (py_take n xs) \<subseteq> set xs"
  by (auto simp: py_take_def dest: in_set_takeD)

lemma union_all_fold: "fold (\<lambda>c acc. acc \<union> c) combo A = A \<union> \<Union> (set combo)"
  by (induction combo arbitrary: A) auto

lemma union_all_Union: "union_all combo = \<Union> (set combo)"
  by (simp add: union_all_def union_all_fold)

lemma cut_limit_subset:
  "set (case cl of None \<Rightarrow> cand
        | Some c \<Rightarrow> if int (length cand) > c then py_take c (sort_key key cand) else cand)
   \<subseteq> set cand"
proof (cases cl)
  case None
  then show ?thesis by simp
next
  case (Some c)
  have "set (py_take c (sort_key key cand)) \<subseteq> set (sort_key key cand)"
    by (rule py_take_subset)
  with Some show ?thesis by auto
qed

lemma node_candidates_cases:
  assumes "C \<in> set (node_candidates K cl fins pools)"
  shows "int (card C) \<le> K \<and> (C = set fins \<or> (\<exists>combo\<in>set (product_lists pools). C = \<Union> (set combo)))"
proof -
  let ?cand0 = "filter (\<lambda>U. int (card U) \<le> K) (map union_all (product_lists pools))"
  let ?cand1 = "if int (card (set fins)) \<le> K then ?cand0 @ [set fins] else ?cand0"
  let ?cand2 = "minimalize_cuts ?cand1"
  have "set (node_candidates K cl fins pools) \<subseteq> set ?cand2"
    unfolding node_candidates_def Let_def by (rule cut_limit_subset)
  with assms minimalize_cuts_subset[of ?cand1] have "C \<in> set ?cand1" by blast
  then show ?thesis by (auto simp: union_all_Union split: if_splits)
qed

lemma those_map_Some:
  "those (map f xs) = Some ys \<Longrightarrow> list_all2 (\<lambda>x y. f x = Some y) xs ys"
  by (induction xs arbitrary: ys) (auto split: option.splits)

lemma product_lists_member:
  "combo \<in> set (product_lists pools) \<Longrightarrow> list_all2 (\<lambda>c p. c \<in> set p) combo pools"
  by (simp add: product_lists_set)

lemma combo_member:
  assumes "list_all2 (\<lambda>x y. f x = Some y) fins pools"
    and "list_all2 (\<lambda>c p. c \<in> set p) combo pools" and "c \<in> set combo"
  shows "\<exists>fi\<in>set fins. \<exists>p. f fi = Some p \<and> c \<in> set p"
proof -
  from assms(3) obtain i where i: "i < length combo" "combo ! i = c"
    by (auto simp: in_set_conv_nth)
  from assms(1,2) have len: "length fins = length pools" "length combo = length pools"
    by (auto dest: list_all2_lengthD)
  from assms(2) i len have "c \<in> set (pools ! i)" by (auto dest: list_all2_nthD)
  moreover from assms(1) i len have "f (fins ! i) = Some (pools ! i)"
    by (auto dest: list_all2_nthD)
  moreover from i len have "fins ! i \<in> set fins" by simp
  ultimately show ?thesis by blast
qed

lemma cuts_ok_gate:
  assumes ok: "cuts_ok PIs K nc" and v: "v \<notin> fst ` set nc" and fins: "fins \<noteq> []"
    and pools: "those (map (map_of nc) fins) = Some pools"
  shows "cuts_ok PIs K (AList.update v (node_candidates K cl fins pools) nc)"
proof -
  from those_map_Some[OF pools] have la: "list_all2 (\<lambda>x y. map_of nc x = Some y) fins pools" .
  have fins_dom: "set fins \<subseteq> fst ` set nc"
  proof
    fix fi assume "fi \<in> set fins"
    then obtain i where "i < length fins" "fins ! i = fi" by (auto simp: in_set_conv_nth)
    with la have "map_of nc fi = Some (pools ! i)" by (auto dest: list_all2_nthD2 list_all2_nthD)
    then show "fi \<in> fst ` set nc" by (metis domI dom_map_of_conv_image_fst)
  qed
  have new: "finite C \<and> C \<noteq> {} \<and> C \<subseteq> fst ` set nc \<and> int (card C) \<le> K"
    if "C \<in> set (node_candidates K cl fins pools)" for C
  proof -
    from node_candidates_cases[OF that]
    consider "C = set fins" "int (card C) \<le> K"
      | combo where "combo \<in> set (product_lists pools)" "C = \<Union> (set combo)" "int (card C) \<le> K"
      by blast
    then show ?thesis
    proof cases
      case 1
      with fins fins_dom show ?thesis by simp
    next
      case 2
      from product_lists_member[OF 2(1)] have lc: "list_all2 (\<lambda>c p. c \<in> set p) combo pools" .
      have each: "finite c \<and> c \<noteq> {} \<and> c \<subseteq> fst ` set nc" if "c \<in> set combo" for c
      proof -
        from combo_member[OF la lc that] obtain fi p where "map_of nc fi = Some p" "c \<in> set p"
          by blast
        with ok show ?thesis unfolding cuts_ok_def by blast
      qed
      from lc la fins have "combo \<noteq> []" by (auto dest!: list_all2_lengthD)
      then obtain c where c: "c \<in> set combo" by (cases combo) auto
      with each[OF c] have "C \<noteq> {}" using 2(2) by blast
      moreover from each have "finite C" "C \<subseteq> fst ` set nc" using 2(2) by auto
      ultimately show ?thesis using 2(3) by simp
    qed
  qed
  show ?thesis
    unfolding cuts_ok_def
  proof (intro allI impI)
    fix w cuts C
    assume m: "map_of (AList.update v (node_candidates K cl fins pools) nc) w = Some cuts"
      and C: "C \<in> set cuts"
    show "finite C \<and> C \<noteq> {} \<and> C \<subseteq> fst ` set (AList.update v (node_candidates K cl fins pools) nc)
          \<and> (w \<notin> PIs \<longrightarrow> w \<notin> C \<and> int (card C) \<le> K)"
    proof (cases "w = v")
      case True
      with m C have "C \<in> set (node_candidates K cl fins pools)" by (simp add: update_conv')
      from new[OF this] v True show ?thesis by (auto simp: dom_update)
    next
      case False
      with m have "map_of nc w = Some cuts" by (simp add: update_conv')
      with ok C show ?thesis unfolding cuts_ok_def by (auto simp: dom_update)
    qed
  qed
qed

lemma cuts_ok_PI:
  assumes ok: "cuts_ok PIs K nc" and v: "v \<in> PIs"
  shows "cuts_ok PIs K (AList.update v [{v}] nc)"
  unfolding cuts_ok_def
proof (intro allI impI)
  fix w cuts C
  assume m: "map_of (AList.update v [{v}] nc) w = Some cuts" and C: "C \<in> set cuts"
  show "finite C \<and> C \<noteq> {} \<and> C \<subseteq> fst ` set (AList.update v [{v}] nc)
        \<and> (w \<notin> PIs \<longrightarrow> w \<notin> C \<and> int (card C) \<le> K)"
  proof (cases "w = v")
    case True
    with m C v show ?thesis by (auto simp: update_conv' dom_update)
  next
    case False
    with m have "map_of nc w = Some cuts" by (simp add: update_conv')
    with ok C show ?thesis unfolding cuts_ok_def by (auto simp: dom_update)
  qed
qed

lemma gate_fanins_nonempty:
  "map_of g v = Some fins \<Longrightarrow> v \<notin> primary_inputs g \<Longrightarrow> fins \<noteq> []"
  by (force simp: primary_inputs_def dest: map_of_SomeD)

lemma enum_loop_ok:
  "enum_loop g K cl (primary_inputs g) vs nc = Inr nc' \<Longrightarrow> cuts_ok (primary_inputs g) K nc
     \<Longrightarrow> distinct vs \<Longrightarrow> set vs \<inter> fst ` set nc = {}
     \<Longrightarrow> cuts_ok (primary_inputs g) K nc' \<and> fst ` set nc' = fst ` set nc \<union> set vs"
proof (induction vs arbitrary: nc)
  case Nil
  then show ?case by simp
next
  case (Cons v vs)
  from Cons.prems(3,4) have v: "v \<notin> fst ` set nc" and d: "distinct vs" and vv: "v \<notin> set vs"
    and disj: "set vs \<inter> fst ` set nc = {}"
    by auto
  show ?case
  proof (cases "v \<in> primary_inputs g")
    case True
    let ?nc = "AList.update v [{v}] nc"
    from Cons.prems(1) True have l: "enum_loop g K cl (primary_inputs g) vs ?nc = Inr nc'" by simp
    have ok: "cuts_ok (primary_inputs g) K ?nc" by (rule cuts_ok_PI[OF Cons.prems(2) True])
    have dj: "set vs \<inter> fst ` set ?nc = {}" using disj vv by (auto simp: dom_update)
    from Cons.IH[OF l ok d dj] show ?thesis by (auto simp: dom_update)
  next
    case False
    with Cons.prems(1) obtain fins pools where f: "map_of g v = Some fins"
      and p: "those (map (map_of nc) fins) = Some pools"
      and l: "enum_loop g K cl (primary_inputs g) vs
                (AList.update v (node_candidates K cl fins pools) nc) = Inr nc'"
      by (auto split: option.splits)
    let ?nc = "AList.update v (node_candidates K cl fins pools) nc"
    have ok: "cuts_ok (primary_inputs g) K ?nc"
      by (rule cuts_ok_gate[OF Cons.prems(2) v gate_fanins_nonempty[OF f False] p])
    have dj: "set vs \<inter> fst ` set ?nc = {}" using disj vv by (auto simp: dom_update)
    from Cons.IH[OF l ok d dj] show ?thesis by (auto simp: dom_update)
  qed
qed

lemma enumerate_ok:
  assumes "enumerate_minimal_kcuts g K cl = Inr nc" and "distinct (map fst g)"
  shows "cuts_ok (primary_inputs g) K nc \<and> fst ` set nc = fst ` set g \<and> 1 \<le> K"
proof -
  from assms(1) obtain topo fo where t: "topo_sort g = Inr (topo, fo)"
    and l: "enum_loop g K cl (primary_inputs g) topo [] = Inr nc" and K: "1 \<le> K"
    by (auto simp: enumerate_minimal_kcuts_def split: if_splits sum.splits)
  from topo_sort_order[OF t assms(2)] have d: "distinct topo" and s: "set topo = fst ` set g"
    by simp_all
  have "cuts_ok (primary_inputs g) K []" by (simp add: cuts_ok_def)
  from enum_loop_ok[OF l this d] s K show ?thesis by simp
qed

text \<open>
  Claim C10. Whenever \<open>enumerate_minimal_kcuts\<close> returns (so the graph is a DAG over its
  own keys and \<open>K \<ge> 1\<close>), every gate \<open>v\<close> has an entry in the result, and every cut in it
  is a finite, non-empty set of nodes of the graph that does not contain \<open>v\<close>; so the
  depth \<open>1 + max\<close> of the labels over the cut is taken over a non-empty finite set.
\<close>

theorem enumerated_cuts_nonempty:
  assumes "enumerate_minimal_kcuts g K cut_limit = Inr node_cuts"
    and "distinct (map fst g)" and "map_of g v = Some fins" and "fins \<noteq> []"
  shows "\<exists>cuts. map_of node_cuts v = Some cuts \<and>
           (\<forall>C\<in>set cuts. C \<noteq> {} \<and> finite C \<and> C \<subseteq> fst ` set g \<and> v \<notin> C)"
proof -
  from enumerate_ok[OF assms(1,2)]
  have ok: "cuts_ok (primary_inputs g) K node_cuts" and dom: "fst ` set node_cuts = fst ` set g"
    by simp_all
  from assms(3) have "v \<in> fst ` set g" by (metis domI dom_map_of_conv_image_fst)
  with dom obtain cuts where m: "map_of node_cuts v = Some cuts"
    by (metis domD dom_map_of_conv_image_fst)
  have "v \<notin> primary_inputs g"
  proof
    assume "v \<in> primary_inputs g"
    then have "(v, []) \<in> set g" by (auto simp: primary_inputs_def)
    with assms(2) have "map_of g v = Some []" by simp
    with assms(3,4) show False by simp
  qed
  with ok m dom have "\<forall>C\<in>set cuts. C \<noteq> {} \<and> finite C \<and> C \<subseteq> fst ` set g \<and> v \<notin> C"
    unfolding cuts_ok_def by blast
  with m show ?thesis by blast
qed

theorem enumerated_cuts_nonempty_witness:
  "\<exists>cuts. map_of [(''a'', [{''a''}]), (''b'', [{''b''}]), (''c'', [{''c''}]),
                   (''and1'', [{''a'', ''b''}]),
                   (''or1'', [{''a'', ''b'', ''c''}, {''and1'', ''c''}])] ''or1'' = Some cuts \<and>
           (\<forall>C\<in>set cuts. C \<noteq> {} \<and> finite C \<and> C \<subseteq> fst ` set graph_S2 \<and> ''or1'' \<notin> C)"
proof (rule enumerated_cuts_nonempty[OF S2_enum])
  show "distinct (map fst graph_S2)" by (simp add: graph_S2_def)
  show "map_of graph_S2 ''or1'' = Some [''and1'', ''c'']" by (simp add: graph_S2_def)
  show "[''and1'', ''c''] \<noteq> []" by simp
qed

subsection \<open>Labels are not depth-optimal: mixed cuts are never enumerated\<close>

lemma mixed_labels_eval:
  "map_sum id fst (flowmap_labels graph_mixed 3 None) = Inr mixed_labels"
  by code_simp

lemma mixed_cut_value: "cut_value mixed_labels {''x'', ''p'', ''q''} = Some 2"
  by code_simp

lemma mixed_cut_card: "card {''x'', ''p'', ''q''} = 3"
  by code_simp

lemma mixed_cut_separates: "separates graph_mixed {''x'', ''p'', ''q''} ''v''"
proof -
  let ?C = "{''x'', ''p'', ''q''}"
  have x: "separates graph_mixed ?C ''x''" and p: "separates graph_mixed ?C ''p''"
    and q: "separates graph_mixed ?C ''q''"
    by (simp_all add: separates.in_cut)
  have my: "map_of graph_mixed ''y'' = Some [''p'', ''q'']"
    and mv: "map_of graph_mixed ''v'' = Some [''x'', ''y'']"
    by (simp_all add: graph_mixed_def)
  have y: "separates graph_mixed ?C ''y''"
    by (rule separates.by_fanins[OF my]) (simp_all add: p q)
  show ?thesis
    by (rule separates.by_fanins[OF mv]) (simp_all add: x y)
qed

text \<open>
  Claim C1 (the code at the failing input). On \<open>graph_mixed\<close> with \<open>K = 3\<close> the labelling
  with the cuts of \<open>enumerate_minimal_kcuts\<close> gives \<open>v\<close> the label 3, although \<open>{x, p, q}\<close>
  is a cut of \<open>v\<close> with three nodes whose depth \<open>1 + max\<close> of the labels is 2. The
  enumeration combines the cut lists of the fanins, which hold no cut \<open>{fanin}\<close> for a
  gate, so a cut that keeps one fanin and expands another is never formed.
\<close>

theorem mixed_label_not_minimal:
  "map_sum id fst (flowmap_labels graph_mixed 3 None) = Inr mixed_labels \<and>
   map_of mixed_labels ''v'' = Some 3 \<and>
   separates graph_mixed {''x'', ''p'', ''q''} ''v'' \<and>
   card {''x'', ''p'', ''q''} = 3 \<and>
   cut_value mixed_labels {''x'', ''p'', ''q''} = Some 2"
  by (simp add: mixed_labels_eval mixed_cut_value mixed_cut_card mixed_cut_separates)
     (simp add: mixed_labels_def)

theorem mixed_label_not_minimal_witness:
  "\<exists>labels. map_sum id fst (flowmap_labels graph_mixed 3 None) = Inr labels \<and>
            map_of labels ''v'' = Some 3 \<and>
            cut_value labels {''x'', ''p'', ''q''} = Some 2"
  using mixed_label_not_minimal by blast

subsection \<open>The selection loop of the area recovery\<close>

lemma select_cut_first_min:
  assumes "select_cut iter PIs refcnt af labels cd v cuts best = Inr (Some (cost, C))"
  shows "(best = Some (cost, C) \<and>
          (\<forall>C'\<in>set cuts. admissible labels cd v C' \<longrightarrow>
             (\<exists>c'. cut_cost PIs refcnt af (iter v C') = Some c' \<and> cost \<le> c')))
       \<or> (\<exists>pre post. cuts = pre @ C # post \<and> admissible labels cd v C \<and>
             cut_cost PIs refcnt af (iter v C) = Some cost \<and>
             (\<forall>bc bcut. best = Some (bc, bcut) \<longrightarrow> cost < bc) \<and>
             (\<forall>C'\<in>set pre. admissible labels cd v C' \<longrightarrow>
                (\<exists>c'. cut_cost PIs refcnt af (iter v C') = Some c' \<and> cost < c')) \<and>
             (\<forall>C'\<in>set post. admissible labels cd v C' \<longrightarrow>
                (\<exists>c'. cut_cost PIs refcnt af (iter v C') = Some c' \<and> cost \<le> c')))"
    (is "?keep cuts best \<or> ?new cuts best")
  using assms
proof (induction cuts arbitrary: best)
  case Nil
  then show ?case by simp
next
  case (Cons C0 Cs)
  from Cons.prems obtain d lv where d: "cut_depth_at cd v C0 = Some d"
    and lv: "map_of labels v = Some lv"
    by (auto split: option.splits)
  show ?case
  proof (cases "d > lv")
    case True
    with d lv have na: "\<not> admissible labels cd v C0" by (simp add: admissible_def)
    from Cons.prems d lv True
    have "select_cut iter PIs refcnt af labels cd v Cs best = Inr (Some (cost, C))" by simp
    from Cons.IH[OF this] show ?thesis
    proof
      assume "?keep Cs best"
      with na show ?thesis by simp
    next
      assume "?new Cs best"
      then obtain pre post where pp: "Cs = pre @ C # post" "admissible labels cd v C"
        "cut_cost PIs refcnt af (iter v C) = Some cost" "\<forall>bc bcut. best = Some (bc, bcut) \<longrightarrow> cost < bc"
        "\<forall>C'\<in>set pre. admissible labels cd v C' \<longrightarrow>
                (\<exists>c'. cut_cost PIs refcnt af (iter v C') = Some c' \<and> cost < c')"
        "\<forall>C'\<in>set post. admissible labels cd v C' \<longrightarrow>
                (\<exists>c'. cut_cost PIs refcnt af (iter v C') = Some c' \<and> cost \<le> c')"
        by blast
      have "C0 # Cs = (C0 # pre) @ C # post" using pp(1) by simp
      moreover have "\<forall>C'\<in>set (C0 # pre). admissible labels cd v C' \<longrightarrow>
                (\<exists>c'. cut_cost PIs refcnt af (iter v C') = Some c' \<and> cost < c')"
        using pp(5) na by simp
      ultimately have "?new (C0 # Cs) best" using pp(2,3,4,6) by blast
      then show ?thesis ..
    qed
  next
    case False
    with d lv have adm0: "admissible labels cd v C0" by (simp add: admissible_def)
    from Cons.prems d lv False obtain c0 where c0: "cut_cost PIs refcnt af (iter v C0) = Some c0"
      by (auto split: option.splits)
    let ?replace = "case best of None \<Rightarrow> True | Some (bc, bcut) \<Rightarrow> c0 < bc"
    let ?best' = "case best of None \<Rightarrow> Some (c0, C0)
                  | Some (bc, bcut) \<Rightarrow> if c0 < bc then Some (c0, C0) else Some (bc, bcut)"
    from Cons.prems d lv False c0
    have sel: "select_cut iter PIs refcnt af labels cd v Cs ?best' = Inr (Some (cost, C))" by simp
    have b_le: "\<exists>b' cut'. ?best' = Some (b', cut') \<and> b' \<le> c0 \<and>
                  (\<forall>bc bcut. best = Some (bc, bcut) \<longrightarrow> b' \<le> bc)"
      by (cases best) auto
    from Cons.IH[OF sel] show ?thesis
    proof
      assume k: "?keep Cs ?best'"
      show ?thesis
      proof (cases ?replace)
        case True
        then have "?best' = Some (c0, C0)" by (cases best) auto
        with k have eq: "cost = c0" "C = C0" by simp_all
        have "C0 # Cs = [] @ C # Cs" using eq by simp
        moreover have "\<forall>bc bcut. best = Some (bc, bcut) \<longrightarrow> cost < bc"
          using True eq by (cases best) auto
        ultimately have "?new (C0 # Cs) best"
          using adm0 c0 eq k by (intro exI[of _ "[]"] exI[of _ Cs]) simp
        then show ?thesis ..
      next
        case False
        then obtain bc bcut where b: "best = Some (bc, bcut)" "\<not> c0 < bc"
          by (cases best) auto
        then have "?best' = best" by simp
        with k b have "best = Some (cost, C)" "cost \<le> c0" by auto
        with k c0 \<open>?best' = best\<close> have "?keep (C0 # Cs) best" by auto
        then show ?thesis ..
      qed
    next
      assume "?new Cs ?best'"
      then obtain pre post where pp: "Cs = pre @ C # post" "admissible labels cd v C"
        "cut_cost PIs refcnt af (iter v C) = Some cost" "\<forall>bc bcut. ?best' = Some (bc, bcut) \<longrightarrow> cost < bc"
        "\<forall>C'\<in>set pre. admissible labels cd v C' \<longrightarrow>
                (\<exists>c'. cut_cost PIs refcnt af (iter v C') = Some c' \<and> cost < c')"
        "\<forall>C'\<in>set post. admissible labels cd v C' \<longrightarrow>
                (\<exists>c'. cut_cost PIs refcnt af (iter v C') = Some c' \<and> cost \<le> c')"
        by blast
      from b_le pp(4) have lt0: "cost < c0" and ltb: "\<forall>bc bcut. best = Some (bc, bcut) \<longrightarrow> cost < bc"
        by force+
      have "C0 # Cs = (C0 # pre) @ C # post" using pp(1) by simp
      moreover have "\<forall>C'\<in>set (C0 # pre). admissible labels cd v C' \<longrightarrow>
                (\<exists>c'. cut_cost PIs refcnt af (iter v C') = Some c' \<and> cost < c')"
        using pp(5) c0 lt0 by simp
      ultimately have "?new (C0 # Cs) best" using pp(2,3,6) ltb by blast
      then show ?thesis ..
    qed
  qed
qed

subsection \<open>Frames of the labelling and area loops\<close>

lemma map_of_dom_iff: "(\<exists>y. map_of xs k = Some y) \<longleftrightarrow> k \<in> fst ` set xs"
  by (metis domD domI dom_map_of_conv_image_fst)

lemma cut_depth_at_update_other:
  "w \<noteq> v \<Longrightarrow> cut_depth_at (AList.update v m cd) w C = cut_depth_at cd w C"
  by (simp add: cut_depth_at_def update_conv')

lemma cut_depth_at_update_same:
  "cut_depth_at (AList.update v (AList.update C0 d m) cd) v C = (if C = C0 then Some d else map_of m C)"
  by (simp add: cut_depth_at_def update_conv')

lemma label_cuts_frame:
  "label_cuts labels v cuts cd best = Inr (cd', best')
     \<Longrightarrow> fst ` set cd' = fst ` set cd \<and> (\<forall>w. w \<noteq> v \<longrightarrow> map_of cd' w = map_of cd w)"
proof (induction cuts arbitrary: cd best)
  case Nil
  then show ?case by simp
next
  case (Cons C Cs)
  from Cons.prems obtain d cdv where d: "cut_value labels C = Some d"
    and m: "map_of cd v = Some cdv"
    and l: "label_cuts labels v Cs (AList.update v (AList.update C d cdv) cd)
              (case best of None \<Rightarrow> Some d | Some b \<Rightarrow> if d < b then Some d else Some b)
            = Inr (cd', best')"
    by (auto split: option.splits)
  from m have "v \<in> fst ` set cd" by (metis map_of_dom_iff)
  with Cons.IH[OF l] show ?case by (auto simp: dom_update update_conv')
qed

lemma label_cuts_untouched:
  "label_cuts labels v cuts cd best = Inr (cd', best') \<Longrightarrow> C \<notin> set cuts
     \<Longrightarrow> cut_depth_at cd' v C = cut_depth_at cd v C"
proof (induction cuts arbitrary: cd best)
  case Nil
  then show ?case by simp
next
  case (Cons C0 Cs)
  from Cons.prems(1) obtain d cdv where d: "cut_value labels C0 = Some d"
    and m: "map_of cd v = Some cdv"
    and l: "label_cuts labels v Cs (AList.update v (AList.update C0 d cdv) cd)
              (case best of None \<Rightarrow> Some d | Some b \<Rightarrow> if d < b then Some d else Some b)
            = Inr (cd', best')"
    by (auto split: option.splits)
  from Cons.prems(2) have "C \<notin> set Cs" "C \<noteq> C0" by auto
  from Cons.IH[OF l this(1)] this(2) m show ?case
    by (simp add: cut_depth_at_update_same) (simp add: cut_depth_at_def)
qed

lemma label_cuts_depths:
  "label_cuts labels v cuts cd best = Inr (cd', best')
     \<Longrightarrow> \<forall>C\<in>set cuts. \<exists>d. cut_value labels C = Some d \<and> cut_depth_at cd' v C = Some d"
proof (induction cuts arbitrary: cd best)
  case Nil
  then show ?case by simp
next
  case (Cons C0 Cs)
  from Cons.prems(1) obtain d cdv where d: "cut_value labels C0 = Some d"
    and m: "map_of cd v = Some cdv"
    and l: "label_cuts labels v Cs (AList.update v (AList.update C0 d cdv) cd)
              (case best of None \<Rightarrow> Some d | Some b \<Rightarrow> if d < b then Some d else Some b)
            = Inr (cd', best')"
    by (auto split: option.splits)
  from Cons.IH[OF l]
  have ih: "\<forall>C\<in>set Cs. \<exists>d. cut_value labels C = Some d \<and> cut_depth_at cd' v C = Some d" .
  have "cut_depth_at cd' v C0 = Some d"
  proof (cases "C0 \<in> set Cs")
    case True
    with ih d show ?thesis by auto
  next
    case False
    from label_cuts_untouched[OF l False] show ?thesis
      by (simp add: cut_depth_at_update_same)
  qed
  with d ih show ?case by simp
qed

lemma label_cuts_best:
  "label_cuts labels v cuts cd best = Inr (cd', best')
     \<Longrightarrow> (best' = None \<longrightarrow> best = None \<and> cuts = []) \<and>
         (\<forall>b. best' = Some b \<longrightarrow>
            (\<forall>C\<in>set cuts. \<forall>d. cut_value labels C = Some d \<longrightarrow> b \<le> d) \<and>
            (\<forall>b0. best = Some b0 \<longrightarrow> b \<le> b0) \<and>
            ((\<exists>C\<in>set cuts. cut_value labels C = Some b) \<or> best = Some b))"
proof (induction cuts arbitrary: cd best)
  case Nil
  then show ?case by auto
next
  case (Cons C0 Cs)
  from Cons.prems(1) obtain d cdv where d: "cut_value labels C0 = Some d"
    and m: "map_of cd v = Some cdv"
    and l: "label_cuts labels v Cs (AList.update v (AList.update C0 d cdv) cd)
              (case best of None \<Rightarrow> Some d | Some b \<Rightarrow> if d < b then Some d else Some b)
            = Inr (cd', best')"
    by (auto split: option.splits)
  let ?b1 = "case best of None \<Rightarrow> Some d | Some b \<Rightarrow> if d < b then Some d else Some b"
  define b1 where "b1 = (case best of None \<Rightarrow> d | Some b \<Rightarrow> if d < b then d else b)"
  have b1: "?b1 = Some b1" "b1 \<le> d" "\<forall>b0. best = Some b0 \<longrightarrow> b1 \<le> b0"
    "b1 = d \<or> best = Some b1"
    unfolding b1_def by (cases best; simp)+
  from Cons.IH[OF l] b1(1)
  have n: "best' \<noteq> None"
    and ih: "\<forall>b. best' = Some b \<longrightarrow>
            (\<forall>C\<in>set Cs. \<forall>d. cut_value labels C = Some d \<longrightarrow> b \<le> d) \<and> b \<le> b1 \<and>
            ((\<exists>C\<in>set Cs. cut_value labels C = Some b) \<or> b1 = b)"
    by auto
  from n obtain b where b: "best' = Some b" by auto
  with ih have 1: "\<forall>C\<in>set Cs. \<forall>d. cut_value labels C = Some d \<longrightarrow> b \<le> d" and 2: "b \<le> b1"
    and 3: "(\<exists>C\<in>set Cs. cut_value labels C = Some b) \<or> b1 = b"
    by auto
  from 1 2 b1(2) d have A: "\<forall>C\<in>set (C0 # Cs). \<forall>d. cut_value labels C = Some d \<longrightarrow> b \<le> d"
    by auto
  from 2 b1(3) have B: "\<forall>b0. best = Some b0 \<longrightarrow> b \<le> b0" by auto
  from 3 b1(4) d have C: "(\<exists>C\<in>set (C0 # Cs). cut_value labels C = Some b) \<or> best = Some b"
    by auto
  from A B C b show ?case by simp
qed

lemma label_loop_frame:
  "label_loop PIs nc vs (labels, cd) = Inr (L, CD)
     \<Longrightarrow> fst ` set L = fst ` set labels \<union> set vs \<and>
         (\<forall>w. w \<notin> set vs \<longrightarrow> map_of L w = map_of labels w \<and> map_of CD w = map_of cd w)"
proof (induction vs arbitrary: labels cd)
  case Nil
  then show ?case by simp
next
  case (Cons v vs)
  show ?case
  proof (cases "v \<in> PIs")
    case True
    with Cons.prems obtain cdv where m: "map_of cd v = Some cdv"
      and l: "label_loop PIs nc vs
                (AList.update v 0 labels, AList.update v (AList.update {v} 0 cdv) cd) = Inr (L, CD)"
      by (auto split: option.splits)
    from Cons.IH[OF l] show ?thesis by (auto simp: dom_update update_conv')
  next
    case False
    with Cons.prems obtain cuts cd1 b where c: "map_of nc v = Some cuts"
      and lc: "label_cuts labels v cuts cd None = Inr (cd1, Some b)"
      and l: "label_loop PIs nc vs (AList.update v b labels, cd1) = Inr (L, CD)"
      by (auto split: option.splits sum.splits)
    from label_cuts_frame[OF lc] Cons.IH[OF l] show ?thesis
      by (auto simp: dom_update update_conv')
  qed
qed

lemma area_loop_frame:
  "area_loop fb iter PIs refcnt labels nc cd vs (bca, af) = Inr (bca', af')
     \<Longrightarrow> \<forall>w. w \<notin> set vs \<longrightarrow> map_of bca' w = map_of bca w \<and> map_of af' w = map_of af w"
proof (induction vs arbitrary: bca af)
  case Nil
  then show ?case by simp
next
  case (Cons v vs)
  show ?case
  proof (cases "v \<in> PIs")
    case True
    with Cons.prems have "area_loop fb iter PIs refcnt labels nc cd vs
         (AList.update v {v} bca, AList.update v (Finite 0) af) = Inr (bca', af')" by simp
    from Cons.IH[OF this] show ?thesis by (auto simp: update_conv')
  next
    case False
    with Cons.prems obtain cost C where
      "area_loop fb iter PIs refcnt labels nc cd vs
         (AList.update v C bca, AList.update v cost af) = Inr (bca', af')"
      by (auto split: option.splits sum.splits)
    from Cons.IH[OF this] show ?thesis by (auto simp: update_conv')
  qed
qed

subsection \<open>The area recovery run on the labels of the labelling\<close>

lemma cut_value_agree:
  "\<forall>u\<in>C. map_of L u = map_of labels u \<Longrightarrow> cut_value L C = cut_value labels C"
  unfolding cut_value_def
  by (auto intro!: arg_cong[where f = Max] image_cong)

lemma cut_value_dom:
  "cut_value labels C = Some d \<Longrightarrow> C \<subseteq> fst ` set labels"
  unfolding cut_value_def
  by (auto split: if_splits simp: map_of_dom_iff[symmetric])

lemma cut_value_gt:
  assumes "cut_value labels C = Some d" and "finite C" and "u \<in> C"
  shows "\<exists>lu. map_of labels u = Some lu \<and> lu < d"
proof -
  from assms(1,3) have all: "\<forall>u\<in>C. map_of labels u \<noteq> None"
    and d: "d = 1 + Max ((\<lambda>u. the (map_of labels u)) ` C)"
    by (auto simp: cut_value_def split: if_splits)
  from all assms(3) obtain lu where lu: "map_of labels u = Some lu" by auto
  from assms(2,3) have "the (map_of labels u) \<le> Max ((\<lambda>u. the (map_of labels u)) ` C)"
    by (intro Max_ge) auto
  with lu d show ?thesis by simp
qed

lemma cost_loop_defined:
  "set us \<subseteq> fst ` set af \<Longrightarrow> set us \<subseteq> fst ` set refcnt
     \<Longrightarrow> \<exists>c. cost_loop PIs refcnt af us cost = Some c"
proof (induction us arbitrary: cost)
  case Nil
  then show ?case by simp
next
  case (Cons u us)
  from Cons.prems obtain a r where "map_of af u = Some a" "map_of refcnt u = Some r"
    by (metis list.set_intros(1) map_of_dom_iff subsetD)
  with Cons show ?case by simp
qed

lemma cut_cost_defined:
  "set us \<subseteq> fst ` set af \<Longrightarrow> set us \<subseteq> fst ` set refcnt
     \<Longrightarrow> \<exists>c. cut_cost PIs refcnt af us = Some c"
  unfolding cut_cost_def by (rule cost_loop_defined)

lemma select_cut_runs:
  assumes "\<forall>C\<in>set cuts. \<exists>d. cut_depth_at cd v C = Some d"
    and "map_of labels v = Some lv"
    and "\<forall>C\<in>set cuts. \<exists>c. cut_cost PIs refcnt af (iter v C) = Some c"
  shows "\<exists>r. select_cut iter PIs refcnt af labels cd v cuts best = Inr r \<and>
             (r = None \<longrightarrow> best = None \<and> (\<forall>C\<in>set cuts. \<not> admissible labels cd v C))"
  using assms
proof (induction cuts arbitrary: best)
  case Nil
  then show ?case by simp
next
  case (Cons C0 Cs)
  from Cons.prems(1) obtain d where d: "cut_depth_at cd v C0 = Some d" by auto
  from Cons.prems(3) obtain c0 where c0: "cut_cost PIs refcnt af (iter v C0) = Some c0" by auto
  from Cons.prems have p: "\<forall>C\<in>set Cs. \<exists>d. cut_depth_at cd v C = Some d"
    "\<forall>C\<in>set Cs. \<exists>c. cut_cost PIs refcnt af (iter v C) = Some c"
    by simp_all
  show ?case
  proof (cases "d > lv")
    case True
    with d Cons.prems(2) have "\<not> admissible labels cd v C0" by (simp add: admissible_def)
    with Cons.IH[OF p(1) Cons.prems(2) p(2), of best] d Cons.prems(2) True
    show ?thesis by simp
  next
    case False
    let ?best' = "case best of None \<Rightarrow> Some (c0, C0)
                  | Some (bc, bcut) \<Rightarrow> if c0 < bc then Some (c0, C0) else Some (bc, bcut)"
    have "?best' \<noteq> None" by (cases best) auto
    with Cons.IH[OF p(1) Cons.prems(2) p(2), of ?best'] d Cons.prems(2) False c0
    show ?thesis by auto
  qed
qed

lemma select_cut_member:
  assumes "select_cut iter PIs refcnt af labels cd v cuts None = Inr (Some (cost, C))"
  shows "C \<in> set cuts \<and> admissible labels cd v C"
  using select_cut_first_min[OF assms] by auto

lemma area_follows_labels:
  assumes "label_loop PIs nc vs (labels, cd) = Inr (L, CD)"
    and "distinct vs" and "set vs \<inter> fst ` set labels = {}"
    and "fst ` set af = fst ` set labels"
    and "fst ` set labels \<union> set vs \<subseteq> fst ` set refcnt"
    and "\<And>v C. set (iter v C) \<subseteq> C"
  shows "\<exists>bca' af'.
           (\<forall>fb. area_loop fb iter PIs refcnt L nc CD vs (bca, af) = Inr (bca', af')) \<and>
           (\<forall>v\<in>set vs. v \<notin> PIs \<longrightarrow>
              (\<exists>C cuts d lv. map_of bca' v = Some C \<and> map_of nc v = Some cuts \<and> C \<in> set cuts \<and>
                 cut_depth_at CD v C = Some d \<and> cut_value L C = Some d \<and>
                 map_of L v = Some lv \<and> d \<le> lv))"
  using assms
proof (induction vs arbitrary: labels cd bca af)
  case Nil
  then show ?case by simp
next
  case (Cons v vs)
  from Cons.prems(2,3) have d: "distinct vs" and vv: "v \<notin> set vs"
    and vl: "v \<notin> fst ` set labels" and disj: "set vs \<inter> fst ` set labels = {}"
    by auto
  show ?case
  proof (cases "v \<in> PIs")
    case True
    with Cons.prems(1) obtain cdv where
      l: "label_loop PIs nc vs
            (AList.update v 0 labels, AList.update v (AList.update {v} 0 cdv) cd) = Inr (L, CD)"
      by (auto split: option.splits)
    have 1: "set vs \<inter> fst ` set (AList.update v 0 labels) = {}"
      using disj vv by (auto simp: dom_update)
    have 2: "fst ` set (AList.update v (Finite 0) af) = fst ` set (AList.update v 0 labels)"
      using Cons.prems(4) by (simp add: dom_update)
    have 3: "fst ` set (AList.update v 0 labels) \<union> set vs \<subseteq> fst ` set refcnt"
      using Cons.prems(5) by (auto simp: dom_update)
    from Cons.IH[OF l d 1 2 3 Cons.prems(6), of "AList.update v {v} bca"] True show ?thesis by simp
  next
    case False
    with Cons.prems(1) obtain cuts cd1 b where c: "map_of nc v = Some cuts"
      and lc: "label_cuts labels v cuts cd None = Inr (cd1, Some b)"
      and l: "label_loop PIs nc vs (AList.update v b labels, cd1) = Inr (L, CD)"
      by (auto split: option.splits sum.splits)
    from label_loop_frame[OF l]
    have fr: "\<And>w. w \<notin> set vs \<Longrightarrow> map_of L w = map_of (AList.update v b labels) w
                                  \<and> map_of CD w = map_of cd1 w"
      by blast
    from fr[OF vv] have Lv: "map_of L v = Some b" and CDv: "map_of CD v = map_of cd1 v"
      by (simp_all add: update_conv')
    have Lold: "\<forall>u\<in>fst ` set labels. map_of L u = map_of labels u"
    proof
      fix u assume u: "u \<in> fst ` set labels"
      with disj vl have "u \<notin> set vs" "u \<noteq> v" by auto
      with fr[of u] show "map_of L u = map_of labels u" by (simp add: update_conv')
    qed
    from CDv have cda: "cut_depth_at CD v C = cut_depth_at cd1 v C" for C
      by (simp add: cut_depth_at_def)
    have depths: "\<exists>d. cut_value labels C = Some d \<and> cut_value L C = Some d \<and>
                     cut_depth_at CD v C = Some d \<and> b \<le> d \<and> C \<subseteq> fst ` set labels"
      if "C \<in> set cuts" for C
    proof -
      from label_cuts_depths[OF lc] that obtain d where
        dd: "cut_value labels C = Some d" "cut_depth_at cd1 v C = Some d" by blast
      from cut_value_dom[OF dd(1)] have sub: "C \<subseteq> fst ` set labels" .
      with Lold have "cut_value L C = cut_value labels C"
        by (intro cut_value_agree) blast
      moreover from label_cuts_best[OF lc] that dd(1) have "b \<le> d" by blast
      ultimately show ?thesis using dd cda sub by simp
    qed
    from label_cuts_best[OF lc] obtain Cm where Cm: "Cm \<in> set cuts" "cut_value labels Cm = Some b"
      by auto
    with depths[OF Cm(1)] Lv have adm: "admissible L CD v Cm"
      by (auto simp: admissible_def)
    have p1: "\<forall>C\<in>set cuts. \<exists>d. cut_depth_at CD v C = Some d"
      using depths by blast
    have p3: "\<forall>C\<in>set cuts. \<exists>c. cut_cost PIs refcnt af (iter v C) = Some c"
    proof
      fix C assume "C \<in> set cuts"
      from depths[OF this] have "C \<subseteq> fst ` set labels" by blast
      with Cons.prems(6)[of v C] have "set (iter v C) \<subseteq> fst ` set labels" by blast
      with Cons.prems(4,5) show "\<exists>c. cut_cost PIs refcnt af (iter v C) = Some c"
        by (intro cut_cost_defined) auto
    qed
    from select_cut_runs[where iter = iter, OF p1 Lv p3, of None] adm Cm(1)
    obtain cost Csel where sel: "select_cut iter PIs refcnt af L CD v cuts None = Inr (Some (cost, Csel))"
      by (metis option.exhaust surj_pair)
    from select_cut_member[OF sel] have Cs: "Csel \<in> set cuts" "admissible L CD v Csel"
      by simp_all
    from depths[OF Cs(1)] obtain ds where ds: "cut_value L Csel = Some ds"
      "cut_depth_at CD v Csel = Some ds" by blast
    with Cs(2) Lv have dsb: "ds \<le> b" by (auto simp: admissible_def)
    have 1: "set vs \<inter> fst ` set (AList.update v b labels) = {}"
      using disj vv by (auto simp: dom_update)
    have 2: "fst ` set (AList.update v cost af) = fst ` set (AList.update v b labels)"
      using Cons.prems(4) by (simp add: dom_update)
    have 3: "fst ` set (AList.update v b labels) \<union> set vs \<subseteq> fst ` set refcnt"
      using Cons.prems(5) by (auto simp: dom_update)
    from Cons.IH[OF l d 1 2 3 Cons.prems(6), of "AList.update v Csel bca"]
    obtain bca' af' where
      run: "\<forall>fb. area_loop fb iter PIs refcnt L nc CD vs
                   (AList.update v Csel bca, AList.update v cost af) = Inr (bca', af')"
      and rest: "\<forall>v\<in>set vs. v \<notin> PIs \<longrightarrow>
              (\<exists>C cuts d lv. map_of bca' v = Some C \<and> map_of nc v = Some cuts \<and> C \<in> set cuts \<and>
                 cut_depth_at CD v C = Some d \<and> cut_value L C = Some d \<and>
                 map_of L v = Some lv \<and> d \<le> lv)"
      by blast
    from run have "area_loop (\<lambda>_ _ _ _ _. Inl KeyError) iter PIs refcnt L nc CD vs
                   (AList.update v Csel bca, AList.update v cost af) = Inr (bca', af')" by blast
    from area_loop_frame[OF this] vv have "map_of bca' v = Some Csel"
      by (simp add: update_conv')
    with c Cs(1) ds Lv dsb
    have here: "\<exists>C cuts d lv. map_of bca' v = Some C \<and> map_of nc v = Some cuts \<and> C \<in> set cuts \<and>
                 cut_depth_at CD v C = Some d \<and> cut_value L C = Some d \<and>
                 map_of L v = Some lv \<and> d \<le> lv"
      by blast
    from run False c sel
    have "\<forall>fb. area_loop fb iter PIs refcnt L nc CD (v # vs) (bca, af) = Inr (bca', af')"
      by simp
    with here rest show ?thesis by (intro exI[of _ bca'] exI[of _ af']) simp
  qed
qed

lemma gate_not_PI:
  assumes "distinct (map fst g)" and "map_of g v = Some fins" and "fins \<noteq> []"
  shows "v \<notin> primary_inputs g"
proof
  assume "v \<in> primary_inputs g"
  then have "(v, []) \<in> set g" by (auto simp: primary_inputs_def)
  with assms(1) have "map_of g v = Some []" by simp
  with assms(2,3) show False by simp
qed

lemma recovery_after_labels:
  assumes "flowmap_labels g K nco = Inr (labels, nc, cd)" and "distinct (map fst g)"
    and "\<And>v C. set (iter v C) \<subseteq> C"
  shows "\<exists>chosen af.
           (\<forall>fb. area_recovery_with fb iter g K labels nc cd = Inr (chosen, af)) \<and>
           (\<forall>v\<in>fst ` set g. v \<notin> primary_inputs g \<longrightarrow>
              (\<exists>C cuts d lv. map_of chosen v = Some C \<and> map_of nc v = Some cuts \<and> C \<in> set cuts \<and>
                 cut_depth_at cd v C = Some d \<and> cut_value labels C = Some d \<and>
                 map_of labels v = Some lv \<and> d \<le> lv))"
proof -
  from assms(1) obtain topo fo where t: "topo_sort g = Inr (topo, fo)"
    and l: "label_loop (primary_inputs g) nc topo ([], map (\<lambda>(v, _). (v, [])) g) = Inr (labels, cd)"
    by (auto simp: flowmap_labels_def split: sum.splits option.splits)
  from topo_sort_order[OF t assms(2)] have d: "distinct topo" and s: "set topo = fst ` set g"
    by simp_all
  let ?refcnt = "map (\<lambda>(n, _). (n, max 1 (length (fo n)))) g"
  from t have r: "compute_refcounts g = Inr ?refcnt" by (simp add: compute_refcounts_def)
  have rd: "fst ` set ?refcnt = fst ` set g" by force
  have "\<exists>bca' af'.
           (\<forall>fb. area_loop fb iter (primary_inputs g) ?refcnt labels nc cd topo ([], [])
                  = Inr (bca', af')) \<and>
           (\<forall>v\<in>set topo. v \<notin> primary_inputs g \<longrightarrow>
              (\<exists>C cuts d lv. map_of bca' v = Some C \<and> map_of nc v = Some cuts \<and> C \<in> set cuts \<and>
                 cut_depth_at cd v C = Some d \<and> cut_value labels C = Some d \<and>
                 map_of labels v = Some lv \<and> d \<le> lv))"
  proof (rule area_follows_labels[OF l d])
    show "set topo \<inter> fst ` set [] = {}" by simp
    show "fst ` set [] = fst ` set []" by simp
    show "fst ` set [] \<union> set topo \<subseteq> fst ` set ?refcnt"
      by (simp only: rd s list.set image_empty Un_empty_left subset_refl)
    show "\<And>v C. set (iter v C) \<subseteq> C" by (rule assms(3))
  qed
  with t r s show ?thesis by (simp add: area_recovery_with_def)
qed

lemma iter_up_subset: "set (iter_up v C) \<subseteq> C"
  by (cases "finite C") (simp_all add: iter_up_def)

lemma iter_down_subset: "set (iter_down v C) \<subseteq> C"
  by (cases "finite C") (simp_all add: iter_down_def)

lemma chain_labels_eval:
  "flowmap_labels graph_chain 2 None = Inr (chain_labels, chain_cuts, chain_depth)"
  by code_simp

lemma chain_distinct: "distinct (map fst graph_chain)"
  by (simp add: graph_chain_def)

text \<open>
  Claim C2. When \<open>labels\<close> and \<open>cut_depth\<close> are the ones \<open>flowmap_labels\<close> computed from
  \<open>node_cuts\<close>, the area recovery returns, its result is the same whatever code stands
  in the \<^verbatim>\<open>if best_cut is None\<close> branch (so that branch is never run, for any node), and
  for every gate \<open>v\<close> the chosen cut satisfies \<open>cut_depth[v][chosen_cut[v]] \<le> labels[v]\<close>.
  This holds for every order of iteration over the cuts (an iteration yields members of
  the set only) and every way \<^verbatim>\<open>sum\<close> adds floats.
\<close>

theorem area_recovery_preserves_depth:
  assumes "flowmap_labels g K node_cuts_opt = Inr (labels, node_cuts, cut_depth)"
    and "distinct (map fst g)"
    and "\<And>v C. set (iter v C) \<subseteq> C"
  shows "\<exists>chosen af.
           area_recovery float_sum iter g K labels node_cuts cut_depth = Inr (chosen, af) \<and>
           (\<forall>fb. area_recovery_with fb iter g K labels node_cuts cut_depth = Inr (chosen, af)) \<and>
           (\<forall>v fins. map_of g v = Some fins \<longrightarrow> fins \<noteq> [] \<longrightarrow>
              (\<exists>C d lv. map_of chosen v = Some C \<and> cut_depth_at cut_depth v C = Some d \<and>
                 map_of labels v = Some lv \<and> d \<le> lv))"
proof -
  from recovery_after_labels[where iter = iter, OF assms] obtain chosen af where
    run: "\<forall>fb. area_recovery_with fb iter g K labels node_cuts cut_depth = Inr (chosen, af)"
    and ok: "\<forall>v\<in>fst ` set g. v \<notin> primary_inputs g \<longrightarrow>
              (\<exists>C cuts d lv. map_of chosen v = Some C \<and> map_of node_cuts v = Some cuts \<and>
                 C \<in> set cuts \<and> cut_depth_at cut_depth v C = Some d \<and>
                 cut_value labels C = Some d \<and> map_of labels v = Some lv \<and> d \<le> lv)"
    by blast
  have "\<exists>C d lv. map_of chosen v = Some C \<and> cut_depth_at cut_depth v C = Some d \<and>
                 map_of labels v = Some lv \<and> d \<le> lv"
    if "map_of g v = Some fins" "fins \<noteq> []" for v fins
  proof -
    from that(1) have "v \<in> fst ` set g" by (metis map_of_dom_iff)
    moreover from gate_not_PI[OF assms(2) that] have "v \<notin> primary_inputs g" .
    ultimately show ?thesis using ok by blast
  qed
  with run show ?thesis unfolding area_recovery_def by blast
qed

theorem area_recovery_preserves_depth_witness:
  "\<exists>chosen af.
     area_recovery plain_sum iter_down graph_chain 2 chain_labels chain_cuts chain_depth
       = Inr (chosen, af) \<and>
     (\<forall>fb. area_recovery_with fb iter_down graph_chain 2 chain_labels chain_cuts chain_depth
            = Inr (chosen, af)) \<and>
     (\<forall>v fins. map_of graph_chain v = Some fins \<longrightarrow> fins \<noteq> [] \<longrightarrow>
        (\<exists>C d lv. map_of chosen v = Some C \<and> cut_depth_at chain_depth v C = Some d \<and>
           map_of chain_labels v = Some lv \<and> d \<le> lv))"
  by (rule area_recovery_preserves_depth[OF chain_labels_eval chain_distinct iter_down_subset])

subsection \<open>The LUTs of the cover\<close>

lemma area_loop_dom:
  "area_loop fb iter PIs refcnt labels nc cd vs (bca, af) = Inr (bca', af')
     \<Longrightarrow> fst ` set bca' = fst ` set bca \<union> set vs"
proof (induction vs arbitrary: bca af)
  case Nil
  then show ?case by simp
next
  case (Cons v vs)
  show ?case
  proof (cases "v \<in> PIs")
    case True
    with Cons.prems have "area_loop fb iter PIs refcnt labels nc cd vs
         (AList.update v {v} bca, AList.update v (Finite 0) af) = Inr (bca', af')" by simp
    from Cons.IH[OF this] show ?thesis by (auto simp: dom_update)
  next
    case False
    with Cons.prems obtain cost C where
      "area_loop fb iter PIs refcnt labels nc cd vs
         (AList.update v C bca, AList.update v cost af) = Inr (bca', af')"
      by (auto split: option.splits sum.splits)
    from Cons.IH[OF this] show ?thesis by (auto simp: dom_update)
  qed
qed

lemma place_all_luts:
  "place_all iter PIs chosen labels stack covered luts = Inr luts' \<Longrightarrow>
     \<forall>l\<in>set luts'. l \<in> set luts \<or>
        (\<exists>v C lv. l = \<lparr>lut_output = v, lut_inputs = sorted_list_of_set C, lut_level = lv\<rparr> \<and>
           v \<notin> PIs \<and> map_of chosen v = Some C \<and> map_of labels v = Some lv)"
proof (induction iter PIs chosen labels stack covered luts rule: place_all.induct)
  case (1 iter PIs chosen_cut labels covered LUTs)
  then show ?case by simp
next
  case (2 iter PIs chosen_cut labels v stack covered LUTs)
  show ?case
  proof (cases "v \<in> covered \<or> v \<in> PIs")
    case True
    with "2.prems" have "place_all iter PIs chosen_cut labels stack covered LUTs = Inr luts'"
      by simp
    from "2.IH"(1)[OF True this] show ?thesis .
  next
    case False
    with "2.prems" obtain C l where C: "map_of chosen_cut v = Some C"
      and l: "map_of labels v = Some l"
      and p: "place_all iter PIs chosen_cut labels (filter (\<lambda>u. u \<notin> PIs) (iter v C) @ stack)
                (insert v covered)
                (LUTs @ [\<lparr>lut_output = v, lut_inputs = sorted_list_of_set C, lut_level = l\<rparr>])
              = Inr luts'"
      by (auto split: option.splits)
    from "2.IH"(2)[OF False C l p] False C l show ?thesis by auto
  qed
qed

lemma pipeline_lut_shape:
  assumes "map_with_area_optimized_flow float_sum iter g K outputs cut_limit = Inr (labels, chosen, luts)"
    and "distinct (map fst g)"
    and "\<And>v C. set (iter v C) \<subseteq> C"
  shows "\<forall>lut\<in>set luts. \<exists>C d.
           lut_inputs lut = sorted_list_of_set C \<and> finite C \<and> int (card C) \<le> K \<and>
           map_of chosen (lut_output lut) = Some C \<and>
           lut_output lut \<notin> primary_inputs g \<and>
           cut_value labels C = Some d \<and> d \<le> lut_level lut \<and>
           map_of labels (lut_output lut) = Some (lut_level lut)"
proof -
  from assms(1) obtain nc0 nc cd af where e: "enumerate_minimal_kcuts g K cut_limit = Inr nc0"
    and fl: "flowmap_labels g K (Some nc0) = Inr (labels, nc, cd)"
    and ar: "area_recovery float_sum iter g K labels nc cd = Inr (chosen, af)"
    and bc: "build_cover iter g chosen labels outputs = Inr luts"
    by (auto simp: map_with_area_optimized_flow_def split: sum.splits)
  from fl have nc: "nc = nc0" by (auto simp: flowmap_labels_def split: sum.splits)
  from enumerate_ok[OF e assms(2)] nc have ok: "cuts_ok (primary_inputs g) K nc" by simp
  from recovery_after_labels[where iter = iter, OF fl assms(2,3)] ar
  have ch: "\<forall>v\<in>fst ` set g. v \<notin> primary_inputs g \<longrightarrow>
              (\<exists>C cuts d lv. map_of chosen v = Some C \<and> map_of nc v = Some cuts \<and> C \<in> set cuts \<and>
                 cut_depth_at cd v C = Some d \<and> cut_value labels C = Some d \<and>
                 map_of labels v = Some lv \<and> d \<le> lv)"
    by (auto simp: area_recovery_def)
  from ar obtain topo fo refcnt where t: "topo_sort g = Inr (topo, fo)"
    and al: "area_loop (fallback_cut float_sum iter) iter (primary_inputs g) refcnt labels nc cd
               topo ([], []) = Inr (chosen, af)"
    by (auto simp: area_recovery_def area_recovery_with_def split: sum.splits)
  from area_loop_dom[OF al] topo_sort_order[OF t assms(2)]
  have dom: "fst ` set chosen = fst ` set g" by simp
  from bc obtain raw where pl: "place_all iter (primary_inputs g) chosen labels
        (case outputs of None \<Rightarrow> detect_outputs g | Some os \<Rightarrow> os) {} [] = Inr raw"
    and luts: "luts = sort_key (\<lambda>x. (lut_level x, lut_output x)) raw"
    by (auto simp: build_cover_def Let_def split: sum.splits)
  show ?thesis
  proof
    fix lut assume "lut \<in> set luts"
    with luts have "lut \<in> set raw" by simp
    with place_all_luts[OF pl] obtain v C lv where
      lut: "lut = \<lparr>lut_output = v, lut_inputs = sorted_list_of_set C, lut_level = lv\<rparr>"
      and v: "v \<notin> primary_inputs g" and C: "map_of chosen v = Some C"
      and lv: "map_of labels v = Some lv"
      by auto
    from C dom have "v \<in> fst ` set g" by (metis map_of_dom_iff)
    with ch v C lv obtain cuts d where cuts: "map_of nc v = Some cuts" "C \<in> set cuts"
      and d: "cut_value labels C = Some d" "d \<le> lv"
      by fastforce
    from ok cuts v have "finite C" "int (card C) \<le> K" unfolding cuts_ok_def by blast+
    with lut v C lv d show "\<exists>C d.
           lut_inputs lut = sorted_list_of_set C \<and> finite C \<and> int (card C) \<le> K \<and>
           map_of chosen (lut_output lut) = Some C \<and>
           lut_output lut \<notin> primary_inputs g \<and>
           cut_value labels C = Some d \<and> d \<le> lut_level lut \<and>
           map_of labels (lut_output lut) = Some (lut_level lut)"
      by auto
  qed
qed

lemma chain_result:
  "map_with_area_optimized_flow plain_sum iter_up graph_chain 2 None None =
     Inr (chain_labels, chain_chosen,
          [\<lparr>lut_output = ''q'', lut_inputs = [''a'', ''b''], lut_level = 1\<rparr>,
           \<lparr>lut_output = ''v'', lut_inputs = [''c'', ''q''], lut_level = 2\<rparr>])"
  by code_simp

lemma chain_limited_result:
  "map_with_area_optimized_flow plain_sum iter_up graph_chain 2 None (Some 1) =
     Inr ([(''a'', 0), (''b'', 0), (''c'', 0), (''q'', 1), (''p'', 2), (''t'', 3), (''v'', 3)],
          [(''a'', {''a''}), (''b'', {''b''}), (''c'', {''c''}), (''q'', {''a'', ''b''}),
           (''p'', {''q''}), (''t'', {''p''}), (''v'', {''p'', ''c''})],
          [\<lparr>lut_output = ''q'', lut_inputs = [''a'', ''b''], lut_level = 1\<rparr>,
           \<lparr>lut_output = ''p'', lut_inputs = [''q''], lut_level = 2\<rparr>,
           \<lparr>lut_output = ''v'', lut_inputs = [''c'', ''p''], lut_level = 3\<rparr>])"
  by code_simp

text \<open>
  Claim C3. In the cover the pipeline returns, every input \<open>u\<close> of a LUT with output \<open>v\<close>
  is a primary input or has a smaller label than \<open>v\<close> (in fact the label of \<open>u\<close> is
  smaller in both cases). This holds for every order of iteration over the cuts and
  every way \<^verbatim>\<open>sum\<close> adds floats.
\<close>

theorem lut_inputs_below_output:
  assumes "map_with_area_optimized_flow float_sum iter g K outputs cut_limit
             = Inr (labels, chosen, luts)"
    and "distinct (map fst g)"
    and "\<And>v C. set (iter v C) \<subseteq> C"
  shows "\<forall>lut\<in>set luts. \<forall>u\<in>set (lut_inputs lut).
           u \<in> primary_inputs g \<or>
           (\<exists>lu lv. map_of labels u = Some lu \<and> map_of labels (lut_output lut) = Some lv \<and> lu < lv)"
proof (intro ballI)
  fix lut u assume lut: "lut \<in> set luts" and u: "u \<in> set (lut_inputs lut)"
  from pipeline_lut_shape[where iter = iter, OF assms] lut obtain C d where
    C: "lut_inputs lut = sorted_list_of_set C" "finite C"
    and d: "cut_value labels C = Some d" "d \<le> lut_level lut"
    and lv: "map_of labels (lut_output lut) = Some (lut_level lut)"
    by blast
  from u C have "u \<in> C" by simp
  from cut_value_gt[OF d(1) C(2) this] obtain lu where "map_of labels u = Some lu" "lu < d"
    by blast
  with d(2) lv show "u \<in> primary_inputs g \<or>
           (\<exists>lu lv. map_of labels u = Some lu \<and> map_of labels (lut_output lut) = Some lv \<and> lu < lv)"
    by auto
qed

theorem lut_inputs_below_output_witness:
  "\<exists>labels chosen luts.
     map_with_area_optimized_flow plain_sum iter_up graph_chain 2 None None
       = Inr (labels, chosen, luts) \<and>
     \<lparr>lut_output = ''v'', lut_inputs = [''c'', ''q''], lut_level = 2\<rparr> \<in> set luts \<and>
     (\<forall>lut\<in>set luts. \<forall>u\<in>set (lut_inputs lut).
        u \<in> primary_inputs graph_chain \<or>
        (\<exists>lu lv. map_of labels u = Some lu \<and> map_of labels (lut_output lut) = Some lv \<and> lu < lv))"
  using lut_inputs_below_output[OF chain_result chain_distinct iter_up_subset] chain_result
  by (intro exI conjI) (assumption, simp, assumption)

text \<open>
  Claim C4. Every LUT of the cover the pipeline returns has at most \<open>K\<close> inputs, for
  every \<open>cut_limit\<close> (unset, or any integer) and every choice of outputs.
\<close>

theorem lut_inputs_at_most_K:
  assumes "map_with_area_optimized_flow float_sum iter g K outputs cut_limit
             = Inr (labels, chosen, luts)"
    and "distinct (map fst g)"
    and "\<And>v C. set (iter v C) \<subseteq> C"
  shows "\<forall>lut\<in>set luts. int (length (lut_inputs lut)) \<le> K"
proof
  fix lut assume "lut \<in> set luts"
  with pipeline_lut_shape[where iter = iter, OF assms] obtain C where
    "lut_inputs lut = sorted_list_of_set C" "finite C" "int (card C) \<le> K"
    by blast
  then show "int (length (lut_inputs lut)) \<le> K" by simp
qed

theorem lut_inputs_at_most_K_witness:
  "\<exists>labels chosen luts.
     map_with_area_optimized_flow plain_sum iter_up graph_chain 2 None (Some 1)
       = Inr (labels, chosen, luts) \<and>
     \<lparr>lut_output = ''v'', lut_inputs = [''c'', ''p''], lut_level = 3\<rparr> \<in> set luts \<and>
     (\<forall>lut\<in>set luts. int (length (lut_inputs lut)) \<le> 2)"
  using lut_inputs_at_most_K[OF chain_limited_result chain_distinct iter_up_subset] chain_limited_result
  by (intro exI conjI) (assumption, simp, assumption)

subsection \<open>The demo network with K = 3\<close>

lemma cost_loop_PIs:
  "set us \<subseteq> PIs \<Longrightarrow> cost_loop PIs refcnt af us cost = Some cost"
  by (induction us) auto

lemma S2_labels:
  "flowmap_labels graph_S2 3 (Some
     [(''a'', [{''a''}]), (''b'', [{''b''}]), (''c'', [{''c''}]), (''and1'', [{''a'', ''b''}]),
      (''or1'', [{''a'', ''b'', ''c''}, {''and1'', ''c''}])]) = Inr
     ([(''a'', 0), (''b'', 0), (''c'', 0), (''and1'', 1), (''or1'', 1)],
      [(''a'', [{''a''}]), (''b'', [{''b''}]), (''c'', [{''c''}]), (''and1'', [{''a'', ''b''}]),
       (''or1'', [{''a'', ''b'', ''c''}, {''and1'', ''c''}])],
      [(''a'', [({''a''}, 0)]), (''b'', [({''b''}, 0)]), (''c'', [({''c''}, 0)]),
       (''and1'', [({''a'', ''b''}, 1)]),
       (''or1'', [({''a'', ''b'', ''c''}, 1), ({''and1'', ''c''}, 2)])])"
  by code_simp

lemma S2_kahn:
  "kahn graph_S2 (indeg_init graph_S2)
     (filter (\<lambda>n. indeg_init graph_S2 n = 0) (map fst graph_S2)) []
   = [''a'', ''b'', ''c'', ''and1'', ''or1'']"
  by code_simp

lemma S2_topo:
  "topo_sort graph_S2 = Inr ([''a'', ''b'', ''c'', ''and1'', ''or1''], fanouts_of graph_S2)"
  unfolding topo_sort_def Let_def S2_kahn by (simp add: graph_S2_def)

lemma S2_refcnt:
  "compute_refcounts graph_S2
   = Inr [(''a'', 1), (''b'', 1), (''c'', 1), (''and1'', 1), (''or1'', 1)]"
  by code_simp

lemma S2_outputs: "detect_outputs graph_S2 = [''or1'']"
  by code_simp

lemma S2_PIs: "primary_inputs graph_S2 = {''a'', ''b'', ''c''}"
  by code_simp

lemma S2_sorted: "sorted_list_of_set {''a'', ''b'', ''c''} = [''a'', ''b'', ''c'']"
  by code_simp

lemma S2_depth_or1:
  "cut_depth_at [(''a'', [({''a''}, 0)]), (''b'', [({''b''}, 0)]), (''c'', [({''c''}, 0)]),
       (''and1'', [({''a'', ''b''}, 1)]),
       (''or1'', [({''a'', ''b'', ''c''}, 1), ({''and1'', ''c''}, 2)])] ''or1'' {''and1'', ''c''}
   = Some 2"
  by code_simp

lemma S2_depth_or1':
  "cut_depth_at [(''a'', [({''a''}, 0)]), (''b'', [({''b''}, 0)]), (''c'', [({''c''}, 0)]),
       (''and1'', [({''a'', ''b''}, 1)]),
       (''or1'', [({''a'', ''b'', ''c''}, 1), ({''and1'', ''c''}, 2)])] ''or1''
       {''a'', ''b'', ''c''}
   = Some 1"
  by code_simp

lemma S2_depth_and1:
  "cut_depth_at [(''a'', [({''a''}, 0)]), (''b'', [({''b''}, 0)]), (''c'', [({''c''}, 0)]),
       (''and1'', [({''a'', ''b''}, 1)]),
       (''or1'', [({''a'', ''b'', ''c''}, 1), ({''and1'', ''c''}, 2)])] ''and1'' {''a'', ''b''}
   = Some 1"
  by code_simp

lemma S2_area:
  assumes "\<And>v C. finite C \<Longrightarrow> set (iter v C) = C"
  shows "area_recovery float_sum iter graph_S2 3
     [(''a'', 0), (''b'', 0), (''c'', 0), (''and1'', 1), (''or1'', 1)]
     [(''a'', [{''a''}]), (''b'', [{''b''}]), (''c'', [{''c''}]), (''and1'', [{''a'', ''b''}]),
      (''or1'', [{''a'', ''b'', ''c''}, {''and1'', ''c''}])]
     [(''a'', [({''a''}, 0)]), (''b'', [({''b''}, 0)]), (''c'', [({''c''}, 0)]),
      (''and1'', [({''a'', ''b''}, 1)]),
      (''or1'', [({''a'', ''b'', ''c''}, 1), ({''and1'', ''c''}, 2)])]
   = Inr ([(''a'', {''a''}), (''b'', {''b''}), (''c'', {''c''}), (''and1'', {''a'', ''b''}),
           (''or1'', {''a'', ''b'', ''c''})],
          [(''a'', Finite 0), (''b'', Finite 0), (''c'', Finite 0), (''and1'', Finite 1),
           (''or1'', Finite 1)])"
proof -
  have ab: "cut_cost {''a'', ''b'', ''c''} refcnt af (iter ''and1'' {''a'', ''b''}) = Some (Finite 1)"
    for refcnt af
    unfolding cut_cost_def by (rule cost_loop_PIs) (simp add: assms)
  have abc: "cut_cost {''a'', ''b'', ''c''} refcnt af (iter ''or1'' {''a'', ''b'', ''c''})
             = Some (Finite 1)" for refcnt af
    unfolding cut_cost_def by (rule cost_loop_PIs) (simp add: assms)
  show ?thesis
    by (simp add: area_recovery_def area_recovery_with_def S2_topo S2_refcnt S2_PIs
          S2_depth_and1 S2_depth_or1 S2_depth_or1' ab abc)
qed

text \<open>
  Claim C9. On the graph \<open>{a:[], b:[], c:[], and1:[a,b], or1:[and1,c]}\<close> with \<open>K = 3\<close>, no
  \<open>cut_limit\<close> and detected outputs, the pipeline returns the labels \<open>a = b = c = 0\<close>,
  \<open>and1 = 1\<close>, \<open>or1 = 1\<close>, and the cover is the single LUT \<open>or1 <= [a, b, c]\<close> at level 1;
  \<open>and1\<close> is absorbed. This holds whatever order the set iteration follows and whatever
  the built-in \<open>sum\<close> computes: every cut that is costed holds primary inputs only, so that
  its cost is the double \<open>1.0\<close>.
\<close>

theorem S2_K3_result:
  assumes "\<And>v C. finite C \<Longrightarrow> set (iter v C) = C"
  shows "map_with_area_optimized_flow float_sum iter graph_S2 3 None None = Inr
    ([(''a'', 0), (''b'', 0), (''c'', 0), (''and1'', 1), (''or1'', 1)],
     [(''a'', {''a''}), (''b'', {''b''}), (''c'', {''c''}), (''and1'', {''a'', ''b''}),
      (''or1'', {''a'', ''b'', ''c''})],
     [\<lparr>lut_output = ''or1'', lut_inputs = [''a'', ''b'', ''c''], lut_level = 1\<rparr>])"
proof -
  have "set (iter ''or1'' {''a'', ''b'', ''c''}) = {''a'', ''b'', ''c''}"
    by (rule assms) simp
  then have "filter (\<lambda>u. u \<notin> {''a'', ''b'', ''c''}) (iter ''or1'' {''a'', ''b'', ''c''}) = []"
    by (simp add: filter_empty_conv)
  then have "build_cover iter graph_S2
      [(''a'', {''a''}), (''b'', {''b''}), (''c'', {''c''}), (''and1'', {''a'', ''b''}),
       (''or1'', {''a'', ''b'', ''c''})]
      [(''a'', 0), (''b'', 0), (''c'', 0), (''and1'', 1), (''or1'', 1)] None
     = Inr [\<lparr>lut_output = ''or1'', lut_inputs = [''a'', ''b'', ''c''], lut_level = 1\<rparr>]"
    by (simp add: build_cover_def S2_outputs S2_PIs S2_sorted)
  then show ?thesis
    by (simp add: map_with_area_optimized_flow_def S2_enum S2_labels S2_area[OF assms])
qed

theorem S2_K3_result_witness:
  "map_with_area_optimized_flow plain_sum iter_up graph_S2 3 None None = Inr
    ([(''a'', 0), (''b'', 0), (''c'', 0), (''and1'', 1), (''or1'', 1)],
     [(''a'', {''a''}), (''b'', {''b''}), (''c'', {''c''}), (''and1'', {''a'', ''b''}),
      (''or1'', {''a'', ''b'', ''c''})],
     [\<lparr>lut_output = ''or1'', lut_inputs = [''a'', ''b'', ''c''], lut_level = 1\<rparr>])"
  by (rule S2_K3_result) (simp add: iter_up_def)

subsection \<open>Gates without a feasible cut\<close>

lemma S6_enum:
  "enumerate_minimal_kcuts graph_S6 2 None =
     Inr [(''a'', [{''a''}]), (''b'', [{''b''}]), (''c'', [{''c''}]), (''g'', [])]"
  by code_simp

lemma S6_labels:
  "flowmap_labels graph_S6 2
     (Some [(''a'', [{''a''}]), (''b'', [{''b''}]), (''c'', [{''c''}]), (''g'', [])])
   = Inl (NoFeasibleCuts ''g'')"
  by code_simp

text \<open>
  Claim C6 (counterexample). On \<open>{a, b, c: PIs; g: [a, b, c]}\<close> with \<open>K = 2\<close> the cut
  enumeration does not fail: it returns, with the empty cut list for \<open>g\<close>.
\<close>

theorem enumerate_S6_counterexample:
  "enumerate_minimal_kcuts graph_S6 2 None =
     Inr [(''a'', [{''a''}]), (''b'', [{''b''}]), (''c'', [{''c''}]), (''g'', [])]"
  by (rule S6_enum)

lemma enum_loop_error:
  "enum_loop g K cl PIs vs nc = Inl e \<Longrightarrow> e = KeyError"
  by (induction vs arbitrary: nc) (auto split: if_splits option.splits)

lemma enumerate_error:
  "enumerate_minimal_kcuts g K cl = Inl e \<Longrightarrow> e = KTooSmall \<or> e = GraphNotDag \<or> e = KeyError"
  by (auto simp: enumerate_minimal_kcuts_def topo_sort_def Let_def
           split: if_splits sum.splits dest: enum_loop_error)

lemma enum_loop_frame:
  "enum_loop g K cl PIs vs nc = Inr NC \<Longrightarrow> w \<notin> set vs \<Longrightarrow> map_of NC w = map_of nc w"
proof (induction vs arbitrary: nc)
  case Nil
  then show ?case by simp
next
  case (Cons v vs)
  from Cons.prems(2) have w: "w \<notin> set vs" "w \<noteq> v" by auto
  show ?case
  proof (cases "v \<in> PIs")
    case True
    with Cons.prems(1) have "enum_loop g K cl PIs vs (AList.update v [{v}] nc) = Inr NC" by simp
    from Cons.IH[OF this w(1)] w(2) show ?thesis by (simp add: update_conv')
  next
    case False
    with Cons.prems(1) obtain cands where
      "enum_loop g K cl PIs vs (AList.update v cands nc) = Inr NC"
      by (auto split: option.splits)
    from Cons.IH[OF this w(1)] w(2) show ?thesis by (simp add: update_conv')
  qed
qed

lemma cut_value_defined:
  "C \<subseteq> fst ` set labels \<Longrightarrow> \<exists>d. cut_value labels C = Some d"
  unfolding cut_value_def by (auto simp: map_of_dom_iff[symmetric] subset_iff)

lemma label_cuts_runs:
  "\<forall>C\<in>set cuts. C \<subseteq> fst ` set labels \<Longrightarrow> v \<in> fst ` set cd
     \<Longrightarrow> \<exists>cd' best'. label_cuts labels v cuts cd best = Inr (cd', best')"
proof (induction cuts arbitrary: cd best)
  case Nil
  then show ?case by simp
next
  case (Cons C Cs)
  from Cons.prems(1) cut_value_defined[of C labels] obtain d where d: "cut_value labels C = Some d"
    by auto
  from Cons.prems(2) obtain cdv where m: "map_of cd v = Some cdv"
    by (metis map_of_dom_iff)
  have "v \<in> fst ` set (AList.update v (AList.update C d cdv) cd)" by (simp add: dom_update)
  with Cons.IH[of "AList.update v (AList.update C d cdv) cd"] Cons.prems(1) d m
  show ?case by simp
qed

lemma labels_follow_enum:
  assumes "enum_loop g K cl (primary_inputs g) vs nc = Inr NC"
    and "cuts_ok (primary_inputs g) K nc" and "distinct vs" and "set vs \<inter> fst ` set nc = {}"
    and "fst ` set labels = fst ` set nc" and "set vs \<subseteq> fst ` set cd"
  shows "(\<exists>L CD. label_loop (primary_inputs g) NC vs (labels, cd) = Inr (L, CD) \<and>
            (\<forall>v\<in>set vs. v \<notin> primary_inputs g \<longrightarrow> map_of NC v \<noteq> Some []))
       \<or> (\<exists>pre v' post. vs = pre @ v' # post \<and> v' \<notin> primary_inputs g \<and>
            map_of NC v' = Some [] \<and>
            (\<forall>w\<in>set pre. w \<notin> primary_inputs g \<longrightarrow> map_of NC w \<noteq> Some []) \<and>
            label_loop (primary_inputs g) NC vs (labels, cd) = Inl (NoFeasibleCuts v'))"
    (is "?ok vs labels cd \<or> ?fail vs labels cd")
  using assms
proof (induction vs arbitrary: nc labels cd)
  case Nil
  then show ?case by simp
next
  case (Cons v vs)
  from Cons.prems(3,4) have d: "distinct vs" and vv: "v \<notin> set vs"
    and vn: "v \<notin> fst ` set nc" and disj: "set vs \<inter> fst ` set nc = {}"
    by auto
  from Cons.prems(6) obtain cdv where cdv: "map_of cd v = Some cdv"
    by (metis list.set_intros(1) map_of_dom_iff subsetD)
  show ?case
  proof (cases "v \<in> primary_inputs g")
    case True
    let ?nc = "AList.update v [{v}] nc"
    let ?labels = "AList.update v 0 labels"
    let ?cd = "AList.update v (AList.update {v} 0 cdv) cd"
    from Cons.prems(1) True have e: "enum_loop g K cl (primary_inputs g) vs ?nc = Inr NC" by simp
    have ok: "cuts_ok (primary_inputs g) K ?nc" by (rule cuts_ok_PI[OF Cons.prems(2) True])
    have 1: "set vs \<inter> fst ` set ?nc = {}" using disj vv by (auto simp: dom_update)
    have 2: "fst ` set ?labels = fst ` set ?nc" using Cons.prems(5) by (simp add: dom_update)
    have 3: "set vs \<subseteq> fst ` set ?cd" using Cons.prems(6) by (auto simp: dom_update)
    have step: "label_loop (primary_inputs g) NC (v # vs) (labels, cd)
                = label_loop (primary_inputs g) NC vs (?labels, ?cd)"
      using True cdv by simp
    from Cons.IH[OF e ok d 1 2 3] show ?thesis
    proof
      assume "?ok vs ?labels ?cd"
      with step True have "?ok (v # vs) labels cd" by auto
      then show ?thesis ..
    next
      assume "?fail vs ?labels ?cd"
      then obtain pre v' post where f: "vs = pre @ v' # post" "v' \<notin> primary_inputs g"
        "map_of NC v' = Some []"
        "\<forall>w\<in>set pre. w \<notin> primary_inputs g \<longrightarrow> map_of NC w \<noteq> Some []"
        "label_loop (primary_inputs g) NC vs (?labels, ?cd) = Inl (NoFeasibleCuts v')"
        by blast
      have "v # vs = (v # pre) @ v' # post" using f(1) by simp
      moreover have "\<forall>w\<in>set (v # pre). w \<notin> primary_inputs g \<longrightarrow> map_of NC w \<noteq> Some []"
        using f(4) True by simp
      ultimately have "?fail (v # vs) labels cd" using f(2,3,5) step by metis
      then show ?thesis ..
    qed
  next
    case False
    with Cons.prems(1) obtain fins pools where f: "map_of g v = Some fins"
      and p: "those (map (map_of nc) fins) = Some pools"
      and e: "enum_loop g K cl (primary_inputs g) vs
                (AList.update v (node_candidates K cl fins pools) nc) = Inr NC"
      by (auto split: option.splits)
    let ?cands = "node_candidates K cl fins pools"
    let ?nc = "AList.update v ?cands nc"
    have ok: "cuts_ok (primary_inputs g) K ?nc"
      by (rule cuts_ok_gate[OF Cons.prems(2) vn gate_fanins_nonempty[OF f False] p])
    from enum_loop_frame[OF e vv] have NCv: "map_of NC v = Some ?cands"
      by (simp add: update_conv')
    have sub: "\<forall>C\<in>set ?cands. C \<subseteq> fst ` set labels"
    proof
      fix C assume C: "C \<in> set ?cands"
      have "map_of ?nc v = Some ?cands" by (simp add: update_conv')
      with ok C False have "C \<subseteq> fst ` set ?nc" "v \<notin> C" unfolding cuts_ok_def by blast+
      with Cons.prems(5) show "C \<subseteq> fst ` set labels" by (auto simp: dom_update)
    qed
    from cdv have "v \<in> fst ` set cd" by (metis map_of_dom_iff)
    from label_cuts_runs[OF sub this, of None] obtain cd1 best' where
      lc: "label_cuts labels v ?cands cd None = Inr (cd1, best')" by blast
    show ?thesis
    proof (cases best')
      case None
      with label_cuts_best[OF lc] have empty: "?cands = []" by simp
      from None lc NCv False
      have "label_loop (primary_inputs g) NC (v # vs) (labels, cd) = Inl (NoFeasibleCuts v)"
        by simp
      with NCv empty False have "?fail (v # vs) labels cd"
        by (intro exI[of _ "[]"] exI[of _ v] exI[of _ vs]) simp
      then show ?thesis ..
    next
      case (Some b)
      let ?labels = "AList.update v b labels"
      from Some lc NCv False
      have step: "label_loop (primary_inputs g) NC (v # vs) (labels, cd)
                  = label_loop (primary_inputs g) NC vs (?labels, cd1)"
        by simp
      from Some lc have ne: "?cands \<noteq> []" by auto
      have 1: "set vs \<inter> fst ` set ?nc = {}" using disj vv by (auto simp: dom_update)
      have 2: "fst ` set ?labels = fst ` set ?nc" using Cons.prems(5) by (simp add: dom_update)
      have 3: "set vs \<subseteq> fst ` set cd1" using Cons.prems(6) label_cuts_frame[OF lc] by auto
      from Cons.IH[OF e ok d 1 2 3] show ?thesis
      proof
        assume "?ok vs ?labels cd1"
        with step NCv ne have "?ok (v # vs) labels cd" by auto
        then show ?thesis ..
      next
        assume "?fail vs ?labels cd1"
        then obtain pre v' post where f: "vs = pre @ v' # post" "v' \<notin> primary_inputs g"
          "map_of NC v' = Some []"
          "\<forall>w\<in>set pre. w \<notin> primary_inputs g \<longrightarrow> map_of NC w \<noteq> Some []"
          "label_loop (primary_inputs g) NC vs (?labels, cd1) = Inl (NoFeasibleCuts v')"
          by blast
        have "v # vs = (v # pre) @ v' # post" using f(1) by simp
        moreover have "\<forall>w\<in>set (v # pre). w \<notin> primary_inputs g \<longrightarrow> map_of NC w \<noteq> Some []"
          using f(4) NCv ne by simp
        ultimately have "?fail (v # vs) labels cd" using f(2,3,5) step by metis
        then show ?thesis ..
      qed
    qed
  qed
qed

lemma S6_pipeline:
  "map_with_area_optimized_flow float_sum iter graph_S6 2 None None = Inl (NoFeasibleCuts ''g'')"
  by (simp add: map_with_area_optimized_flow_def S6_enum S6_labels)

text \<open>
  Claim C6 (as amended). The cut enumeration never fails with the no-feasible-cut error:
  a gate whose pruned cut set is empty gets the empty list, and the enumeration goes on.
  The error is raised by the labelling. Whenever the enumeration returns and some gate
  has the empty list, \<open>flowmap_labels\<close>, and with it the pipeline, fails with
  \<open>NoFeasibleCuts v'\<close>, where \<open>v'\<close> is the first gate in topological order whose list is
  empty; nothing is returned. In particular the pipeline fails with \<open>NoFeasibleCuts g\<close>
  on \<open>{a, b, c: PIs; g: [a, b, c]}\<close> with \<open>K = 2\<close>.
\<close>

theorem no_feasible_cut_raised_by_labelling:
  fixes g :: "'a::linorder graph" and iter_s :: "string \<Rightarrow> string cut \<Rightarrow> string list"
  assumes "enumerate_minimal_kcuts g K cut_limit = Inr node_cuts"
    and "distinct (map fst g)"
    and "map_of g v = Some fins" and "fins \<noteq> []" and "map_of node_cuts v = Some []"
  shows "(\<forall>(h :: 'a graph) k cl w. enumerate_minimal_kcuts h k cl \<noteq> Inl (NoFeasibleCuts w)) \<and>
         (\<exists>pre v' post fo.
            topo_sort g = Inr (pre @ v' # post, fo) \<and>
            v' \<notin> primary_inputs g \<and> map_of node_cuts v' = Some [] \<and>
            (\<forall>w\<in>set pre. w \<notin> primary_inputs g \<longrightarrow> map_of node_cuts w \<noteq> Some []) \<and>
            flowmap_labels g K (Some node_cuts) = Inl (NoFeasibleCuts v') \<and>
            map_with_area_optimized_flow float_sum iter g K outputs cut_limit = Inl (NoFeasibleCuts v')) \<and>
         map_with_area_optimized_flow float_sum iter_s graph_S6 2 None None = Inl (NoFeasibleCuts ''g'')"
proof (intro conjI allI)
  fix h :: "'a graph" and k cl w
  show "enumerate_minimal_kcuts h k cl \<noteq> Inl (NoFeasibleCuts w)"
    using enumerate_error[of h k cl "NoFeasibleCuts w"] by auto
next
  from assms(1) obtain topo fo where t: "topo_sort g = Inr (topo, fo)"
    and e: "enum_loop g K cut_limit (primary_inputs g) topo [] = Inr node_cuts"
    by (auto simp: enumerate_minimal_kcuts_def split: if_splits sum.splits)
  from topo_sort_order[OF t assms(2)] have d: "distinct topo" and s: "set topo = fst ` set g"
    by simp_all
  let ?cd = "map (\<lambda>(v, _). (v, [])) g :: ('a \<times> ('a cut \<times> int) list) list"
  have cdd: "fst ` set ?cd = fst ` set g" by force
  have ok0: "cuts_ok (primary_inputs g) K []" by (simp add: cuts_ok_def)
  have "(\<exists>L CD. label_loop (primary_inputs g) node_cuts topo ([], ?cd) = Inr (L, CD) \<and>
            (\<forall>v\<in>set topo. v \<notin> primary_inputs g \<longrightarrow> map_of node_cuts v \<noteq> Some []))
       \<or> (\<exists>pre v' post. topo = pre @ v' # post \<and> v' \<notin> primary_inputs g \<and>
            map_of node_cuts v' = Some [] \<and>
            (\<forall>w\<in>set pre. w \<notin> primary_inputs g \<longrightarrow> map_of node_cuts w \<noteq> Some []) \<and>
            label_loop (primary_inputs g) node_cuts topo ([], ?cd) = Inl (NoFeasibleCuts v'))"
  proof (rule labels_follow_enum[OF e ok0 d])
    show "set topo \<inter> fst ` set [] = {}" by simp
    show "fst ` set [] = fst ` set []" by simp
    show "set topo \<subseteq> fst ` set ?cd" by (simp only: cdd s subset_refl)
  qed
  moreover from assms(3) have "v \<in> set topo" using s by (metis map_of_dom_iff)
  moreover from gate_not_PI[OF assms(2,3,4)] have "v \<notin> primary_inputs g" .
  ultimately obtain pre v' post where f: "topo = pre @ v' # post" "v' \<notin> primary_inputs g"
    "map_of node_cuts v' = Some []"
    "\<forall>w\<in>set pre. w \<notin> primary_inputs g \<longrightarrow> map_of node_cuts w \<noteq> Some []"
    "label_loop (primary_inputs g) node_cuts topo ([], ?cd) = Inl (NoFeasibleCuts v')"
    using assms(5) by blast
  from f(5) t have fl: "flowmap_labels g K (Some node_cuts) = Inl (NoFeasibleCuts v')"
    by (simp add: flowmap_labels_def)
  with assms(1)
  have "map_with_area_optimized_flow float_sum iter g K outputs cut_limit = Inl (NoFeasibleCuts v')"
    by (simp add: map_with_area_optimized_flow_def)
  with f(1-4) t fl show "\<exists>pre v' post fo.
            topo_sort g = Inr (pre @ v' # post, fo) \<and>
            v' \<notin> primary_inputs g \<and> map_of node_cuts v' = Some [] \<and>
            (\<forall>w\<in>set pre. w \<notin> primary_inputs g \<longrightarrow> map_of node_cuts w \<noteq> Some []) \<and>
            flowmap_labels g K (Some node_cuts) = Inl (NoFeasibleCuts v') \<and>
            map_with_area_optimized_flow float_sum iter g K outputs cut_limit = Inl (NoFeasibleCuts v')"
    by blast
next
  show "map_with_area_optimized_flow float_sum iter_s graph_S6 2 None None = Inl (NoFeasibleCuts ''g'')"
    by (rule S6_pipeline)
qed

theorem no_feasible_cut_raised_by_labelling_witness:
  "(\<exists>pre v' post fo.
      topo_sort graph_S6 = Inr (pre @ v' # post, fo) \<and>
      v' \<notin> primary_inputs graph_S6 \<and>
      map_of [(''a'', [{''a''}]), (''b'', [{''b''}]), (''c'', [{''c''}]), (''g'', [])] v' = Some [] \<and>
      (\<forall>w\<in>set pre. w \<notin> primary_inputs graph_S6 \<longrightarrow>
         map_of [(''a'', [{''a''}]), (''b'', [{''b''}]), (''c'', [{''c''}]), (''g'', [])] w \<noteq> Some []) \<and>
      flowmap_labels graph_S6 2
        (Some [(''a'', [{''a''}]), (''b'', [{''b''}]), (''c'', [{''c''}]), (''g'', [])])
        = Inl (NoFeasibleCuts v') \<and>
      map_with_area_optimized_flow plain_sum iter_up graph_S6 2 None None
        = Inl (NoFeasibleCuts v')) \<and>
   map_with_area_optimized_flow plain_sum iter_up graph_S6 2 None None
     = Inl (NoFeasibleCuts ''g'')"
proof -
  have 1: "distinct (map fst graph_S6)" by (simp add: graph_S6_def)
  have 2: "map_of graph_S6 ''g'' = Some [''a'', ''b'', ''c'']" by (simp add: graph_S6_def)
  have 3: "[''a'', ''b'', ''c''] \<noteq> []" by simp
  have 4: "map_of [(''a'', [{''a''}]), (''b'', [{''b''}]), (''c'', [{''c''}]), (''g'', [])] ''g''
           = Some []" by simp
  from no_feasible_cut_raised_by_labelling[OF S6_enum 1 2 3 4,
         of plain_sum iter_up None iter_up]
  show ?thesis by blast
qed

subsection \<open>Ties between cuts of equal cost\<close>

lemma chain_refcnt_eval: "compute_refcounts graph_chain = Inr chain_refcnt"
  by code_simp

lemma chain_area_eval:
  "area_recovery plain_sum iter_up graph_chain 2 chain_labels chain_cuts chain_depth
   = Inr (chain_chosen, chain_flow)"
  by code_simp

lemma chain_area_eval_down:
  "area_recovery plain_sum iter_down graph_chain 2 chain_labels chain_cuts chain_depth
   = Inr (chain_chosen, chain_flow)"
  by code_simp

lemma chain_select_pc:
  "select_cut iter_up (primary_inputs graph_chain) chain_refcnt chain_flow chain_labels
     chain_depth ''v'' [{''p'', ''c''}] None = Inr (Some (Finite 2, {''p'', ''c''}))"
  by code_simp

lemma chain_select_qc:
  "select_cut iter_up (primary_inputs graph_chain) chain_refcnt chain_flow chain_labels
     chain_depth ''v'' [{''q'', ''c''}] None = Inr (Some (Finite 2, {''q'', ''c''}))"
  by code_simp

lemma chain_sorted_less: "sorted_list_of_set {''p'', ''c''} < sorted_list_of_set {''q'', ''c''}"
  by code_simp

lemma chain_card_eq: "card {''p'', ''c''} = card {''q'', ''c''}"
  by code_simp

text \<open>
  Claim C5 (counterexample). On \<open>graph_chain\<close> with \<open>K = 2\<close> the gate \<open>v\<close> has the cuts
  \<open>{q, c}\<close>, \<open>{p, c}\<close>, \<open>{t, c}\<close>, in this order. Each is admissible and its computed cost
  is the double \<open>2.0\<close> (taken alone, \<open>select_cut\<close> accepts it with cost \<open>2.0\<close>); \<open>{p, c}\<close> and
  \<open>{q, c}\<close> have the same size and \<open>(c, p)\<close> is before \<open>(c, q)\<close>, yet the cut chosen for \<open>v\<close>
  is \<open>{q, c}\<close>, with the sets iterated in ascending and in descending order alike.
\<close>

theorem chain_tie_break_counterexample:
  "flowmap_labels graph_chain 2 None = Inr (chain_labels, chain_cuts, chain_depth) \<and>
   compute_refcounts graph_chain = Inr chain_refcnt \<and>
   area_recovery plain_sum iter_up graph_chain 2 chain_labels chain_cuts chain_depth
     = Inr (chain_chosen, chain_flow) \<and>
   area_recovery plain_sum iter_down graph_chain 2 chain_labels chain_cuts chain_depth
     = Inr (chain_chosen, chain_flow) \<and>
   map_of chain_chosen ''v'' = Some {''q'', ''c''} \<and>
   select_cut iter_up (primary_inputs graph_chain) chain_refcnt chain_flow chain_labels
     chain_depth ''v'' [{''p'', ''c''}] None = Inr (Some (Finite 2, {''p'', ''c''})) \<and>
   select_cut iter_up (primary_inputs graph_chain) chain_refcnt chain_flow chain_labels
     chain_depth ''v'' [{''q'', ''c''}] None = Inr (Some (Finite 2, {''q'', ''c''})) \<and>
   card {''p'', ''c''} = card {''q'', ''c''} \<and>
   sorted_list_of_set {''p'', ''c''} < sorted_list_of_set {''q'', ''c''}"
  by (simp only: chain_labels_eval chain_refcnt_eval chain_area_eval chain_area_eval_down
        chain_select_pc chain_select_qc chain_sorted_less chain_card_eq simp_thms)
     (simp add: chain_chosen_def)

lemma cost_loop_agree:
  "cost_loop PIs refcnt af us c0 = Some c
     \<Longrightarrow> \<forall>u\<in>fst ` set af. map_of af' u = map_of af u
     \<Longrightarrow> cost_loop PIs refcnt af' us c0 = Some c"
proof (induction us arbitrary: c0)
  case Nil
  then show ?case by simp
next
  case (Cons u us)
  show ?case
  proof (cases "u \<in> PIs")
    case True
    with Cons show ?thesis by simp
  next
    case False
    with Cons.prems(1) obtain a r where a: "map_of af u = Some a" and r: "map_of refcnt u = Some r"
      and rest: "cost_loop PIs refcnt af us (fadd c0 (fdiv a r)) = Some c"
      by (auto split: option.splits)
    from a have "u \<in> fst ` set af" by (metis map_of_dom_iff)
    with Cons.prems(2) a have "map_of af' u = Some a" by fastforce
    with False r Cons.IH[OF rest Cons.prems(2)] show ?thesis by simp
  qed
qed

lemma select_cut_none:
  "select_cut iter PIs refcnt af labels cd v cuts best = Inr None
     \<Longrightarrow> best = None \<and> (\<forall>C\<in>set cuts. \<not> admissible labels cd v C)"
proof (induction cuts arbitrary: best)
  case Nil
  then show ?case by simp
next
  case (Cons C Cs)
  from Cons.prems obtain d lv where d: "cut_depth_at cd v C = Some d"
    and lv: "map_of labels v = Some lv"
    by (auto split: option.splits)
  show ?case
  proof (cases "d > lv")
    case True
    with Cons.prems d lv
    have "select_cut iter PIs refcnt af labels cd v Cs best = Inr None" by simp
    from Cons.IH[OF this] True d lv show ?thesis by (simp add: admissible_def)
  next
    case False
    with Cons.prems d lv obtain c0 where
      "select_cut iter PIs refcnt af labels cd v Cs
         (case best of None \<Rightarrow> Some (c0, C)
          | Some (bc, bcut) \<Rightarrow> if c0 < bc then Some (c0, C) else Some (bc, bcut)) = Inr None"
      by (auto split: option.splits)
    from Cons.IH[OF this] have False by (cases best) (auto split: if_splits)
    then show ?thesis ..
  qed
qed

text \<open>The state of the loop when it reaches a gate \<open>v\<close>: the area flows recorded by then
  are those of the final dictionary, and what the selection returns for \<open>v\<close> is what the
  final dictionaries hold.\<close>

lemma area_loop_at:
  assumes "area_loop fb iter PIs refcnt labels nc cd vs (bca, af) = Inr (bca', af')"
    and "v \<in> set vs" and "distinct vs" and "v \<notin> PIs" and "set vs \<inter> fst ` set af = {}"
  shows "\<exists>cuts afv. map_of nc v = Some cuts \<and>
           (\<forall>u\<in>fst ` set afv. map_of af' u = map_of afv u) \<and>
           (select_cut iter PIs refcnt afv labels cd v cuts None = Inr None \<or>
            (\<exists>c C. select_cut iter PIs refcnt afv labels cd v cuts None = Inr (Some (c, C)) \<and>
                   map_of bca' v = Some C \<and> map_of af' v = Some c))"
  using assms
proof (induction vs arbitrary: bca af)
  case Nil
  then show ?case by simp
next
  case (Cons v0 vs)
  from Cons.prems(3) have v0: "v0 \<notin> set vs" and dvs: "distinct vs" by simp_all
  show ?case
  proof (cases "v0 = v")
    case True
    from Cons.prems(1,4) True obtain cuts r where nc: "map_of nc v = Some cuts"
      and sel: "select_cut iter PIs refcnt af labels cd v cuts None = Inr r"
      by (auto split: option.splits sum.splits)
    from v0 True have vv: "v \<notin> set vs" by simp
    have old: "\<forall>u\<in>fst ` set af. map_of af' u = map_of af u"
      if rest: "area_loop fb iter PIs refcnt labels nc cd vs (bca1, AList.update v x af)
                = Inr (bca', af')" for bca1 x
    proof
      fix u assume u: "u \<in> fst ` set af"
      with Cons.prems(5) True have "u \<notin> set vs" "u \<noteq> v" by auto
      with area_loop_frame[OF rest] show "map_of af' u = map_of af u"
        by (simp add: update_conv')
    qed
    show ?thesis
    proof (cases r)
      case None
      with Cons.prems(1,4) True nc sel obtain bc bcut where
        "area_loop fb iter PIs refcnt labels nc cd vs
           (AList.update v bcut bca, AList.update v bc af) = Inr (bca', af')"
        by (auto split: sum.splits)
      from old[OF this] nc sel None show ?thesis by blast
    next
      case (Some p)
      obtain c C where p: "p = (c, C)" by (cases p)
      with Some Cons.prems(1,4) True nc sel have
        rest: "area_loop fb iter PIs refcnt labels nc cd vs
           (AList.update v C bca, AList.update v c af) = Inr (bca', af')"
        by simp
      from area_loop_frame[OF rest] vv
      have "map_of bca' v = Some C" "map_of af' v = Some c" by (simp_all add: update_conv')
      with old[OF rest] nc sel Some p show ?thesis by blast
    qed
  next
    case False
    with Cons.prems(2) have vin: "v \<in> set vs" by simp
    from Cons.prems(1) obtain bca1 x where
      rest: "area_loop fb iter PIs refcnt labels nc cd vs (bca1, AList.update v0 x af)
             = Inr (bca', af')"
      by (auto split: if_splits option.splits sum.splits)
    have "set vs \<inter> fst ` set (AList.update v0 x af) = {}"
      using Cons.prems(5) v0 by (auto simp: dom_update)
    from Cons.IH[OF rest vin dvs Cons.prems(4) this] show ?thesis .
  qed
qed

text \<open>
  Claim C5 (as amended). Let \<open>area_recovery\<close> return \<open>chosen\<close> and \<open>area_flow\<close>, and let \<open>v\<close> be
  a gate with the list \<open>cuts = node_cuts[v]\<close>. The cost of a cut is the double the code
  computes: \<open>1.0\<close>, to which the quotients \<open>area_flow[u] / refcnt[u]\<close> of the members that are
  not primary inputs are added one by one, in the order the set is iterated, every
  operation rounded. Unless no cut of the list is admissible, \<open>chosen[v]\<close> is the first cut
  of the list that attains the least computed cost among the admissible ones: it is an
  admissible cut of the list, \<open>area_flow[v]\<close> is its cost, every admissible cut listed
  before it has a strictly larger computed cost, and every admissible cut listed after
  it has a computed cost at least as large. Neither the size of a cut nor the order of
  its sorted elements is consulted.
\<close>

theorem chosen_cut_first_cheapest:
  assumes "area_recovery float_sum iter g K labels node_cuts cut_depth = Inr (chosen, area_flow)"
    and "distinct (map fst g)"
    and "map_of g v = Some fins" and "fins \<noteq> []"
  shows "\<exists>refcnt cuts. compute_refcounts g = Inr refcnt \<and> map_of node_cuts v = Some cuts \<and>
     ((\<forall>C\<in>set cuts. \<not> admissible labels cut_depth v C) \<or>
      (\<exists>pre C post cost. cuts = pre @ C # post \<and>
          map_of chosen v = Some C \<and> map_of area_flow v = Some cost \<and>
          admissible labels cut_depth v C \<and>
          cut_cost (primary_inputs g) refcnt area_flow (iter v C) = Some cost \<and>
          (\<forall>C'\<in>set pre. admissible labels cut_depth v C' \<longrightarrow>
             (\<exists>c'. cut_cost (primary_inputs g) refcnt area_flow (iter v C') = Some c' \<and>
                   cost < c')) \<and>
          (\<forall>C'\<in>set post. admissible labels cut_depth v C' \<longrightarrow>
             (\<exists>c'. cut_cost (primary_inputs g) refcnt area_flow (iter v C') = Some c' \<and>
                   cost \<le> c'))))"
proof -
  let ?PIs = "primary_inputs g"
  from assms(1) obtain topo fo refcnt where t: "topo_sort g = Inr (topo, fo)"
    and rc: "compute_refcounts g = Inr refcnt"
    and al: "area_loop (fallback_cut float_sum iter) iter ?PIs refcnt labels node_cuts cut_depth
               topo ([], []) = Inr (chosen, area_flow)"
    by (auto simp: area_recovery_def area_recovery_with_def split: sum.splits)
  from topo_sort_order[OF t assms(2)] have d: "distinct topo" and s: "set topo = fst ` set g"
    by simp_all
  from assms(3) have vin: "v \<in> set topo" using s by (metis map_of_dom_iff)
  from gate_not_PI[OF assms(2,3,4)] have vg: "v \<notin> ?PIs" .
  have "set topo \<inter> fst ` set ([] :: ('a \<times> double) list) = {}" by simp
  from area_loop_at[OF al vin d vg this] obtain cuts afv where
    nc: "map_of node_cuts v = Some cuts"
    and agree: "\<forall>u\<in>fst ` set afv. map_of area_flow u = map_of afv u"
    and sel: "select_cut iter ?PIs refcnt afv labels cut_depth v cuts None = Inr None \<or>
            (\<exists>c C. select_cut iter ?PIs refcnt afv labels cut_depth v cuts None
                      = Inr (Some (c, C)) \<and>
                   map_of chosen v = Some C \<and> map_of area_flow v = Some c)"
    by blast
  have final: "cut_cost ?PIs refcnt area_flow us = Some c"
    if "cut_cost ?PIs refcnt afv us = Some c" for us c
    using that agree unfolding cut_cost_def by (rule cost_loop_agree)
  from sel show ?thesis
  proof
    assume "select_cut iter ?PIs refcnt afv labels cut_depth v cuts None = Inr None"
    from select_cut_none[OF this] rc nc show ?thesis by blast
  next
    assume "\<exists>c C. select_cut iter ?PIs refcnt afv labels cut_depth v cuts None
                      = Inr (Some (c, C)) \<and>
                   map_of chosen v = Some C \<and> map_of area_flow v = Some c"
    then obtain c C where
      sc: "select_cut iter ?PIs refcnt afv labels cut_depth v cuts None = Inr (Some (c, C))"
      and ch: "map_of chosen v = Some C" and fl: "map_of area_flow v = Some c"
      by blast
    from select_cut_first_min[OF sc] obtain pre post where pp: "cuts = pre @ C # post"
      "admissible labels cut_depth v C"
      "cut_cost ?PIs refcnt afv (iter v C) = Some c"
      "\<forall>C'\<in>set pre. admissible labels cut_depth v C' \<longrightarrow>
                (\<exists>c'. cut_cost ?PIs refcnt afv (iter v C') = Some c' \<and> c < c')"
      "\<forall>C'\<in>set post. admissible labels cut_depth v C' \<longrightarrow>
                (\<exists>c'. cut_cost ?PIs refcnt afv (iter v C') = Some c' \<and> c \<le> c')"
      by blast
    from pp(4) final have 4: "\<forall>C'\<in>set pre. admissible labels cut_depth v C' \<longrightarrow>
                (\<exists>c'. cut_cost ?PIs refcnt area_flow (iter v C') = Some c' \<and> c < c')"
      by blast
    from pp(5) final have 5: "\<forall>C'\<in>set post. admissible labels cut_depth v C' \<longrightarrow>
                (\<exists>c'. cut_cost ?PIs refcnt area_flow (iter v C') = Some c' \<and> c \<le> c')"
      by blast
    from pp(1,2) final[OF pp(3)] ch fl 4 5 rc nc show ?thesis by blast
  qed
qed

theorem chosen_cut_first_cheapest_witness:
  "compute_refcounts graph_chain = Inr chain_refcnt \<and>
   map_of chain_cuts ''v'' = Some [{''q'', ''c''}, {''p'', ''c''}, {''t'', ''c''}] \<and>
   (\<exists>pre post. [{''q'', ''c''}, {''p'', ''c''}, {''t'', ''c''}] = pre @ {''q'', ''c''} # post \<and>
      map_of chain_chosen ''v'' = Some {''q'', ''c''} \<and>
      map_of chain_flow ''v'' = Some (Finite 2) \<and>
      admissible chain_labels chain_depth ''v'' {''q'', ''c''} \<and>
      cut_cost (primary_inputs graph_chain) chain_refcnt chain_flow (iter_up ''v'' {''q'', ''c''})
        = Some (Finite 2) \<and>
      (\<forall>C'\<in>set pre. admissible chain_labels chain_depth ''v'' C' \<longrightarrow>
         (\<exists>c'. cut_cost (primary_inputs graph_chain) chain_refcnt chain_flow (iter_up ''v'' C')
                 = Some c' \<and> Finite 2 < c')) \<and>
      (\<forall>C'\<in>set post. admissible chain_labels chain_depth ''v'' C' \<longrightarrow>
         (\<exists>c'. cut_cost (primary_inputs graph_chain) chain_refcnt chain_flow (iter_up ''v'' C')
                 = Some c' \<and> Finite 2 \<le> c')))"
proof -
  have v: "map_of graph_chain ''v'' = Some [''t'', ''c'']" by (simp add: graph_chain_def)
  have ne: "[''t'', ''c''] \<noteq> []" by simp
  have cuts: "map_of chain_cuts ''v'' = Some [{''q'', ''c''}, {''p'', ''c''}, {''t'', ''c''}]"
    by (simp add: chain_cuts_def)
  have ch: "map_of chain_chosen ''v'' = Some {''q'', ''c''}" by (simp add: chain_chosen_def)
  have fl: "map_of chain_flow ''v'' = Some (Finite 2)" by (simp add: chain_flow_def)
  have adm: "admissible chain_labels chain_depth ''v'' {''q'', ''c''}"
    by (simp add: admissible_def cut_depth_at_def chain_labels_def chain_depth_def)
  from chosen_cut_first_cheapest[OF chain_area_eval chain_distinct v ne]
  obtain refcnt cs where rc: "compute_refcounts graph_chain = Inr refcnt"
    and cs: "map_of chain_cuts ''v'' = Some cs"
    and alt: "(\<forall>C\<in>set cs. \<not> admissible chain_labels chain_depth ''v'' C) \<or>
      (\<exists>pre C post cost. cs = pre @ C # post \<and>
          map_of chain_chosen ''v'' = Some C \<and> map_of chain_flow ''v'' = Some cost \<and>
          admissible chain_labels chain_depth ''v'' C \<and>
          cut_cost (primary_inputs graph_chain) refcnt chain_flow (iter_up ''v'' C) = Some cost \<and>
          (\<forall>C'\<in>set pre. admissible chain_labels chain_depth ''v'' C' \<longrightarrow>
             (\<exists>c'. cut_cost (primary_inputs graph_chain) refcnt chain_flow (iter_up ''v'' C')
                     = Some c' \<and> cost < c')) \<and>
          (\<forall>C'\<in>set post. admissible chain_labels chain_depth ''v'' C' \<longrightarrow>
             (\<exists>c'. cut_cost (primary_inputs graph_chain) refcnt chain_flow (iter_up ''v'' C')
                     = Some c' \<and> cost \<le> c')))"
    by blast
  from rc have r: "refcnt = chain_refcnt" by (simp add: chain_refcnt_eval)
  from cs cuts have c: "cs = [{''q'', ''c''}, {''p'', ''c''}, {''t'', ''c''}]" by simp
  from adm c have "\<not> (\<forall>C\<in>set cs. \<not> admissible chain_labels chain_depth ''v'' C)" by simp
  with alt obtain pre C post cost where pp: "cs = pre @ C # post"
    "map_of chain_chosen ''v'' = Some C" "map_of chain_flow ''v'' = Some cost"
    "admissible chain_labels chain_depth ''v'' C"
    "cut_cost (primary_inputs graph_chain) refcnt chain_flow (iter_up ''v'' C) = Some cost"
    "\<forall>C'\<in>set pre. admissible chain_labels chain_depth ''v'' C' \<longrightarrow>
             (\<exists>c'. cut_cost (primary_inputs graph_chain) refcnt chain_flow (iter_up ''v'' C')
                     = Some c' \<and> cost < c')"
    "\<forall>C'\<in>set post. admissible chain_labels chain_depth ''v'' C' \<longrightarrow>
             (\<exists>c'. cut_cost (primary_inputs graph_chain) refcnt chain_flow (iter_up ''v'' C')
                     = Some c' \<and> cost \<le> c')"
    by blast
  from pp(2) ch have C: "C = {''q'', ''c''}" by simp
  from pp(3) fl have cost: "cost = Finite 2" by simp
  from pp(1,4,5,6,7) show ?thesis
    unfolding C cost r c using chain_refcnt_eval cuts ch fl by blast
qed

subsection \<open>The iteration order of a cut decides between cuts of equal exact cost\<close>

lemma iter_up_enumerates: "finite C \<Longrightarrow> set (iter_up v C) = C \<and> distinct (iter_up v C)"
  by (simp add: iter_up_def)

lemma iter_down_enumerates: "finite C \<Longrightarrow> set (iter_down v C) = C \<and> distinct (iter_down v C)"
  by (simp add: iter_down_def)

lemma tie_enum: "enumerate_minimal_kcuts graph_tie 2 None = Inr tie_cuts"
  by code_simp

lemma tie_labels_eval:
  "flowmap_labels graph_tie 2 (Some tie_cuts) = Inr (tie_labels, tie_cuts, tie_depth)"
  by code_simp

lemma tie_distinct: "distinct (map fst graph_tie)"
  by (simp add: graph_tie_def)

lemma tie_refcnt_eval: "compute_refcounts graph_tie = Inr tie_refcnt"
  by code_simp

lemma tie_area_up:
  "area_recovery plain_sum iter_up graph_tie 2 tie_labels tie_cuts tie_depth
   = Inr (tie_chosen_up, tie_flow)"
  by code_simp

lemma tie_area_down:
  "area_recovery plain_sum iter_down graph_tie 2 tie_labels tie_cuts tie_depth
   = Inr (tie_chosen_down, tie_flow)"
  by code_simp

text \<open>No gate of \<open>graph_tie\<close> takes the fallback branch, so the built-in \<^verbatim>\<open>sum\<close> is not
  called.\<close>

lemma tie_area_up_any_sum:
  "area_recovery float_sum iter_up graph_tie 2 tie_labels tie_cuts tie_depth
   = Inr (tie_chosen_up, tie_flow)"
proof -
  from recovery_after_labels[where iter = iter_up, OF tie_labels_eval tie_distinct iter_up_subset]
  obtain chosen af where
    a: "\<forall>fb. area_recovery_with fb iter_up graph_tie 2 tie_labels tie_cuts tie_depth
             = Inr (chosen, af)"
    by blast
  then have "area_recovery plain_sum iter_up graph_tie 2 tie_labels tie_cuts tie_depth
             = Inr (chosen, af)"
    by (simp add: area_recovery_def)
  with tie_area_up have "chosen = tie_chosen_up" "af = tie_flow" by simp_all
  with a show ?thesis by (simp add: area_recovery_def)
qed

lemma tie_area_down_any_sum:
  "area_recovery float_sum iter_down graph_tie 2 tie_labels tie_cuts tie_depth
   = Inr (tie_chosen_down, tie_flow)"
proof -
  from recovery_after_labels[where iter = iter_down,
         OF tie_labels_eval tie_distinct iter_down_subset]
  obtain chosen af where
    a: "\<forall>fb. area_recovery_with fb iter_down graph_tie 2 tie_labels tie_cuts tie_depth
             = Inr (chosen, af)"
    by blast
  then have "area_recovery plain_sum iter_down graph_tie 2 tie_labels tie_cuts tie_depth
             = Inr (chosen, af)"
    by (simp add: area_recovery_def)
  with tie_area_down have "chosen = tie_chosen_down" "af = tie_flow" by simp_all
  with a show ?thesis by (simp add: area_recovery_def)
qed

lemma tie_cover_up:
  "build_cover iter_up graph_tie tie_chosen_up tie_labels None = Inr
     [\<lparr>lut_output = ''k'', lut_inputs = [''c'', ''d''], lut_level = 1\<rparr>,
      \<lparr>lut_output = ''m'', lut_inputs = [''a'', ''b''], lut_level = 1\<rparr>,
      \<lparr>lut_output = ''x1'', lut_inputs = [''c'', ''d''], lut_level = 1\<rparr>,
      \<lparr>lut_output = ''x2'', lut_inputs = [''c'', ''d''], lut_level = 1\<rparr>,
      \<lparr>lut_output = ''v'', lut_inputs = [''k'', ''m''], lut_level = 2\<rparr>]"
  by code_simp

lemma tie_cover_down:
  "build_cover iter_down graph_tie tie_chosen_down tie_labels None = Inr
     [\<lparr>lut_output = ''m'', lut_inputs = [''a'', ''b''], lut_level = 1\<rparr>,
      \<lparr>lut_output = ''n'', lut_inputs = [''c'', ''d''], lut_level = 1\<rparr>,
      \<lparr>lut_output = ''x1'', lut_inputs = [''c'', ''d''], lut_level = 1\<rparr>,
      \<lparr>lut_output = ''x2'', lut_inputs = [''c'', ''d''], lut_level = 1\<rparr>,
      \<lparr>lut_output = ''v'', lut_inputs = [''m'', ''n''], lut_level = 2\<rparr>]"
  by code_simp

lemma tie_run_up:
  "map_with_area_optimized_flow float_sum iter_up graph_tie 2 None None = Inr
     (tie_labels, tie_chosen_up,
      [\<lparr>lut_output = ''k'', lut_inputs = [''c'', ''d''], lut_level = 1\<rparr>,
       \<lparr>lut_output = ''m'', lut_inputs = [''a'', ''b''], lut_level = 1\<rparr>,
       \<lparr>lut_output = ''x1'', lut_inputs = [''c'', ''d''], lut_level = 1\<rparr>,
       \<lparr>lut_output = ''x2'', lut_inputs = [''c'', ''d''], lut_level = 1\<rparr>,
       \<lparr>lut_output = ''v'', lut_inputs = [''k'', ''m''], lut_level = 2\<rparr>])"
  by (simp add: map_with_area_optimized_flow_def tie_enum tie_labels_eval tie_area_up_any_sum
        tie_cover_up)

lemma tie_run_down:
  "map_with_area_optimized_flow float_sum iter_down graph_tie 2 None None = Inr
     (tie_labels, tie_chosen_down,
      [\<lparr>lut_output = ''m'', lut_inputs = [''a'', ''b''], lut_level = 1\<rparr>,
       \<lparr>lut_output = ''n'', lut_inputs = [''c'', ''d''], lut_level = 1\<rparr>,
       \<lparr>lut_output = ''x1'', lut_inputs = [''c'', ''d''], lut_level = 1\<rparr>,
       \<lparr>lut_output = ''x2'', lut_inputs = [''c'', ''d''], lut_level = 1\<rparr>,
       \<lparr>lut_output = ''v'', lut_inputs = [''m'', ''n''], lut_level = 2\<rparr>])"
  by (simp add: map_with_area_optimized_flow_def tie_enum tie_labels_eval tie_area_down_any_sum
        tie_cover_down)

lemma tie_cost_up_mn:
  "cut_cost (primary_inputs graph_tie) tie_refcnt tie_flow (iter_up ''v'' {''m'', ''n''})
   = Some cost_high"
  by code_simp

lemma tie_cost_up_mk:
  "cut_cost (primary_inputs graph_tie) tie_refcnt tie_flow (iter_up ''v'' {''m'', ''k''})
   = Some cost_low"
  by code_simp

lemma tie_cost_down_mn:
  "cut_cost (primary_inputs graph_tie) tie_refcnt tie_flow (iter_down ''v'' {''m'', ''n''})
   = Some cost_low"
  by code_simp

lemma tie_cost_down_mk:
  "cut_cost (primary_inputs graph_tie) tie_refcnt tie_flow (iter_down ''v'' {''m'', ''k''})
   = Some cost_high"
  by code_simp

lemma cost_low_less: "cost_low < cost_high"
  by code_simp

lemma tie_chosen_differ:
  "map_of tie_chosen_up ''v'' = Some {''m'', ''k''} \<and>
   map_of tie_chosen_down ''v'' = Some {''m'', ''n''} \<and> {''m'', ''k''} \<noteq> {''m'', ''n''}"
  by code_simp

text \<open>
  Claim C8. Two runs on identical inputs need not return identical results: the result
  depends on the order in which Python iterates the sets of node names, which the inputs
  do not determine (it follows the hashes of the strings, seeded anew in every process).
  On \<open>graph_tie\<close> with \<open>K = 2\<close>, no \<open>cut_limit\<close> and detected outputs, the gate \<open>v\<close> has the
  admissible cuts \<open>{m, n}\<close> and \<open>{m, k}\<close>, in this order, whose exact cost is \<open>1 + 1 + 1/3\<close>.
  The cost loop adds the quotients in iteration order: \<^verbatim>\<open>(1.0 + 1.0) + 1/3\<close> is the double
  \<^verbatim>\<open>2.3333333333333335\<close> and \<^verbatim>\<open>(1.0 + 1/3) + 1.0\<close> is \<^verbatim>\<open>2.333333333333333\<close>. A run that iterates
  the cuts in ascending order finds \<open>{m, k}\<close> strictly cheaper and chooses it; a run that
  iterates them in descending order finds \<open>{m, k}\<close> dearer and keeps \<open>{m, n}\<close>. The labels
  agree, the chosen cuts and the LUT lists differ. Both orders list every member of a
  cut once (\<open>iter_up_enumerates\<close>, \<open>iter_down_enumerates\<close>), and the built-in \<^verbatim>\<open>sum\<close> plays no
  part.
\<close>

theorem set_iteration_order_changes_result:
  "map_with_area_optimized_flow float_sum iter_up graph_tie 2 None None = Inr
     (tie_labels, tie_chosen_up,
      [\<lparr>lut_output = ''k'', lut_inputs = [''c'', ''d''], lut_level = 1\<rparr>,
       \<lparr>lut_output = ''m'', lut_inputs = [''a'', ''b''], lut_level = 1\<rparr>,
       \<lparr>lut_output = ''x1'', lut_inputs = [''c'', ''d''], lut_level = 1\<rparr>,
       \<lparr>lut_output = ''x2'', lut_inputs = [''c'', ''d''], lut_level = 1\<rparr>,
       \<lparr>lut_output = ''v'', lut_inputs = [''k'', ''m''], lut_level = 2\<rparr>]) \<and>
   map_with_area_optimized_flow float_sum iter_down graph_tie 2 None None = Inr
     (tie_labels, tie_chosen_down,
      [\<lparr>lut_output = ''m'', lut_inputs = [''a'', ''b''], lut_level = 1\<rparr>,
       \<lparr>lut_output = ''n'', lut_inputs = [''c'', ''d''], lut_level = 1\<rparr>,
       \<lparr>lut_output = ''x1'', lut_inputs = [''c'', ''d''], lut_level = 1\<rparr>,
       \<lparr>lut_output = ''x2'', lut_inputs = [''c'', ''d''], lut_level = 1\<rparr>,
       \<lparr>lut_output = ''v'', lut_inputs = [''m'', ''n''], lut_level = 2\<rparr>]) \<and>
   map_of tie_chosen_up ''v'' = Some {''m'', ''k''} \<and>
   map_of tie_chosen_down ''v'' = Some {''m'', ''n''} \<and>
   {''m'', ''k''} \<noteq> {''m'', ''n''} \<and>
   cut_cost (primary_inputs graph_tie) tie_refcnt tie_flow (iter_up ''v'' {''m'', ''n''})
     = Some cost_high \<and>
   cut_cost (primary_inputs graph_tie) tie_refcnt tie_flow (iter_up ''v'' {''m'', ''k''})
     = Some cost_low \<and>
   cut_cost (primary_inputs graph_tie) tie_refcnt tie_flow (iter_down ''v'' {''m'', ''n''})
     = Some cost_low \<and>
   cut_cost (primary_inputs graph_tie) tie_refcnt tie_flow (iter_down ''v'' {''m'', ''k''})
     = Some cost_high \<and>
   cost_low < cost_high \<and>
   map_with_area_optimized_flow float_sum iter_up graph_tie 2 None None
     \<noteq> map_with_area_optimized_flow float_sum iter_down graph_tie 2 None None"
proof -
  have "map_with_area_optimized_flow float_sum iter_up graph_tie 2 None None
        \<noteq> map_with_area_optimized_flow float_sum iter_down graph_tie 2 None None"
    unfolding tie_run_up tie_run_down by simp
  with tie_run_up[of float_sum] tie_run_down[of float_sum] tie_chosen_differ
    tie_cost_up_mn tie_cost_up_mk tie_cost_down_mn tie_cost_down_mk cost_low_less
  show ?thesis by (intro conjI) (simp_all only: simp_thms)
qed

end
